theory Spec2Isabelle
  imports Complex_Main "HOL-Library.Sublist"
begin

section \<open>The Dashscope model of LLMBox (utilization/model/dashscope\_model.py)\<close>

subsection \<open>Python values, dictionaries and exceptions\<close>

text \<open>
  The option values that travel through \<open>ModelArguments\<close>, \<open>extra_model_args\<close> and
  \<open>generation_kwargs\<close>. A Python float is read as the rational it denotes; the only
  numeric test of the program is \<open>== 0\<close>, which is exact.
\<close>

datatype pyval =
    PNone
  | PBool bool
  | PInt int
  | PFloat rat
  | PStr string
  | PList "string list"

type_synonym pydict = "string \<rightharpoonup> pyval"

text \<open>Python's \<open>v == 0\<close>: numbers compare by value and \<open>False == 0\<close> holds.\<close>

fun eq_zero :: "pyval \<Rightarrow> bool" where
  "eq_zero (PInt i) = (i = 0)"
| "eq_zero (PFloat r) = (r = 0)"
| "eq_zero (PBool b) = (\<not> b)"
| "eq_zero PNone = False"
| "eq_zero (PStr s) = False"
| "eq_zero (PList l) = False"

text \<open>Python's truth value, as \<open>if multi_turn\<close> and \<open>if not key\<close> read it.\<close>

fun truthy :: "pyval \<Rightarrow> bool" where
  "truthy PNone = False"
| "truthy (PBool b) = b"
| "truthy (PInt i) = (i \<noteq> 0)"
| "truthy (PFloat r) = (r \<noteq> 0)"
| "truthy (PStr s) = (s \<noteq> [])"
| "truthy (PList l) = (l \<noteq> [])"

text \<open>\<open>d.get(k, dflt)\<close> and \<open>d.pop(k, dflt)\<close>; the latter also returns the dictionary left.\<close>

definition get :: "pydict \<Rightarrow> string \<Rightarrow> pyval \<Rightarrow> pyval" where
  "get d k dflt = (case d k of None \<Rightarrow> dflt | Some v \<Rightarrow> v)"

definition pop :: "pydict \<Rightarrow> string \<Rightarrow> pyval \<Rightarrow> pyval \<times> pydict" where
  "pop d k dflt = (case d k of None \<Rightarrow> (dflt, d) | Some v \<Rightarrow> (v, d(k := None)))"

text \<open>
  The exceptions of the program. \<open>CallRaised\<close> is any exception out of
  \<open>dashscope.Generation.call\<close>; \<open>OutputUnreadable\<close> is any exception raised while
  reading \<open>msg.output.choices[0].message\<close> or its \<open>content\<close>; \<open>UnsupportedModel\<close> is
  the exception of \<open>dashscope.get_tokenizer\<close> for a name it does not know.
\<close>

datatype exn =
    ValueError string
  | ConnectionError string
  | AssertionError
  | IndexError
  | CallRaised
  | OutputUnreadable
  | UnsupportedModel string

subsection \<open>Messages, responses and the outside world\<close>

datatype role = User | Assistant

record message =
  role :: role
  content :: string

text \<open>The message object found at \<open>msg.output.choices[0].message\<close>.\<close>

datatype reply = Reply (reply_content: string)

text \<open>
  What \<open>dashscope.Generation.call\<close> returns: \<open>status_code\<close>, the error text
  \<open>message\<close>, and \<open>choice\<close>, the object at \<open>output.choices[0].message\<close>
  (\<open>None\<close> when reading that path raises).
\<close>

datatype response = Response (status_code: nat) (message: string) (choice: "reply option")

definition HTTP_OK :: nat where
  "HTTP_OK = 200"

text \<open>
  One issued call: the arguments it was given, what came back (\<open>None\<close>: it raised), and
  the time of the call, counted in the seconds the program had slept by then.
\<close>

record call =
  call_model :: string
  call_messages :: "message list"
  call_kwargs :: pydict
  call_returned :: "response option"
  call_time :: nat

text \<open>
  The world outside the interpreter: the state of the remote service, the calls issued
  so far (oldest first), the seconds spent in \<open>time.sleep\<close>, and the lines handed to the
  logger.
\<close>

datatype level = Info | Warning

record 'u world =
  upstream :: 'u
  calls :: "call list"
  slept :: nat
  logged :: "(level \<times> string) list"

text \<open>
  The remote service is a parameter: from its state, the model name, the messages and the
  options it answers with a response, or raises, and moves to a new state.
\<close>

type_synonym 'u api = "'u \<Rightarrow> string \<Rightarrow> message list \<Rightarrow> pydict \<Rightarrow> response option \<times> 'u"

subsection \<open>The model object\<close>

text \<open>
  The tokenizer that \<open>dashscope.get_tokenizer\<close> hands out for a name; the program only
  stores it.
\<close>

datatype tokenizer = Tokenizer string

text \<open>
  \<open>ModelArguments\<close> is declared outside these sources. The program reads the generation
  options through \<open>getattr(self.args, key, None)\<close> (\<open>attr\<close>: \<open>None\<close> when the attribute
  is missing), and the fields below by name.
\<close>

record model_arguments =
  attr :: pydict
  seed :: pyval
  dashscope_api_key :: "string option"
  model_name_or_path :: string
  tokenizer_name_or_path :: string

definition getattr :: "model_arguments \<Rightarrow> string \<Rightarrow> pyval \<Rightarrow> pyval" where
  "getattr a key dflt = (case attr a key of None \<Rightarrow> dflt | Some v \<Rightarrow> v)"

record dashscope =
  api_key :: string
  args :: model_arguments
  name :: string
  model_type :: string
  tokenizer :: tokenizer
  max_try_times :: nat

text \<open>The attributes that \<open>set_generation_args\<close> adds to the object.\<close>

record configured = dashscope +
  generation_kwargs :: pydict
  multi_turn :: pyval

definition private_key :: "string \<Rightarrow> string" where
  "private_key k = take 8 k @ replicate 23 (CHR ''*'') @ drop (length k - 4) k"

definition key_required :: string where
  "key_required =
     ''Dashscope API key is required. Please set it by passing a `--dashscope_api_key` '' @
     ''or through environment variable `DASHSCOPE_API_KEY`.''"

text \<open>
  \<open>Dashscope.__init__\<close>. Two of its calls lead outside these sources and may raise:
  \<open>super().__init__(args)\<close> and \<open>dashscope.get_tokenizer\<close>. Both are parameters:
  \<open>super_init\<close> tells the exception of \<open>Model.__init__\<close>, if it raises one, and
  \<open>get_tokenizer\<close> gives the tokenizer for a name, or the exception raised instead.
\<close>

definition init :: "(model_arguments \<Rightarrow> exn option) \<Rightarrow> (string \<Rightarrow> exn + tokenizer) \<Rightarrow>
                      model_arguments \<Rightarrow> 'u world \<Rightarrow> (exn + dashscope) \<times> 'u world" where
  "init super_init get_tokenizer a w =
     (case super_init a of
        Some e \<Rightarrow> (Inl e, w)
      | None \<Rightarrow>
          (case dashscope_api_key a of
             None \<Rightarrow> (Inl (ValueError key_required), w)
           | Some k \<Rightarrow>
               if k = [] then (Inl (ValueError key_required), w)
               else
                 let w1 = w\<lparr> logged := logged w @
                            [(Info, ''Trying to load Dashscope model with api_key='' @
                                    [CHR 0x27] @ private_key k @ [CHR 0x27])] \<rparr>
                 in case get_tokenizer (tokenizer_name_or_path a) of
                      Inl e \<Rightarrow> (Inl e, w1)
                    | Inr t \<Rightarrow>
                        (Inr \<lparr> api_key = k, args = a, name = model_name_or_path a,
                               model_type = ''instruction'', tokenizer = t,
                               max_try_times = 10 \<rparr>,
                         w1)))"

subsection \<open>set\_generation\_args\<close>

definition generation_keys :: "string list" where
  "generation_keys =
     [''temperature'', ''top_p'', ''top_k'', ''max_tokens'', ''repetition_penalty'',
      ''enable_search'', ''stop'']"

text \<open>One pass of the loop over the keys, on \<open>generation_kwargs\<close> and \<open>extra_model_args\<close>.\<close>

definition set_key :: "model_arguments \<Rightarrow> pydict \<times> pydict \<Rightarrow> string \<Rightarrow> pydict \<times> pydict" where
  "set_key a st key =
     (let (kwargs, extra) = st;
          value0 = getattr a key PNone;
          (value1, extra1) = (if value0 = PNone then pop extra key PNone else (value0, extra));
          value2 = (if key = ''max_tokens'' \<and> value1 = PNone then PInt 1024 else value1)
      in (if value2 \<noteq> PNone then kwargs(key \<mapsto> value2) else kwargs, extra1))"

definition set_generation_args :: "'a dashscope_scheme \<Rightarrow> pydict \<Rightarrow> pydict \<times> configured" where
  "set_generation_args self extra_model_args =
     (let (kwargs, extra) = foldl (set_key (args self)) (Map.empty, extra_model_args) generation_keys;
          kwargs1 = (if eq_zero (get kwargs ''temperature'' (PInt 1))
                     then kwargs(''seed'' \<mapsto> seed (args self)) else kwargs);
          mt = fst (pop extra ''multi_turn'' (PBool False))
      in (kwargs1,
          \<lparr> api_key = api_key self, args = args self, name = name self,
            model_type = model_type self, tokenizer = tokenizer self,
            max_try_times = max_try_times self,
            generation_kwargs = kwargs1, multi_turn = mt \<rparr>))"

subsection \<open>str.split\<close>

definition SEPARATOR :: string where
  "SEPARATOR = ''__SEPARATOR__''"

text \<open>
  \<open>s.split(sep)\<close> scans from the left: \<open>cur\<close> is the segment read so far. At an occurrence
  of \<open>sep\<close> the segment is closed and the scan goes on behind the occurrence. (Python
  raises on an empty separator; the program splits on \<open>SEPARATOR\<close> only.)
\<close>

function split_scan :: "string \<Rightarrow> string \<Rightarrow> string \<Rightarrow> string list" where
  "split_scan sep cur [] = [cur]"
| "split_scan sep cur (c # cs) =
     (if sep \<noteq> [] \<and> prefix sep (c # cs)
      then cur # split_scan sep [] (drop (length sep) (c # cs))
      else split_scan sep (cur @ [c]) cs)"
  by pat_completeness auto
termination
  by (relation "measure (\<lambda>(sep, cur, s). length s)") (auto simp: neq_Nil_conv)

definition str_split :: "string \<Rightarrow> string \<Rightarrow> string list" where
  "str_split s sep = split_scan sep [] s"

subsection \<open>request and generation\<close>

text \<open>The local variables of one pass through the \<open>try\<close> block.\<close>

record locals =
  messages :: "message list"
  results :: "reply list"
  error_msg :: string

definition issue :: "'u api \<Rightarrow> string \<Rightarrow> message list \<Rightarrow> pydict \<Rightarrow> 'u world \<Rightarrow> response option \<times> 'u world" where
  "issue api nm msgs kwargs w =
     (let (r, u) = api (upstream w) nm msgs kwargs
      in (r, w\<lparr> upstream := u,
                calls := calls w @ [\<lparr> call_model = nm, call_messages = msgs,
                                      call_kwargs = kwargs, call_returned = r,
                                      call_time = slept w \<rparr>] \<rparr>))"

text \<open>
  The loop \<open>for query in parts\<close>. It ends with the locals (\<open>Inr\<close>), or with the exception
  raised and the locals at that moment (\<open>Inl\<close>).
\<close>

fun query_loop :: "'u api \<Rightarrow> string \<Rightarrow> pydict \<Rightarrow> string list \<Rightarrow> locals \<Rightarrow> 'u world
                     \<Rightarrow> (exn \<times> locals + locals) \<times> 'u world" where
  "query_loop api nm kwargs [] l w = (Inr l, w)"
| "query_loop api nm kwargs (query # parts) l w =
     (if length query = 0 then query_loop api nm kwargs parts l w
      else
        let l1 = l\<lparr> messages := messages l @ [\<lparr> role = User, content = query \<rparr>] \<rparr>;
            (r, w1) = issue api nm (messages l1) kwargs w
        in case r of
             None \<Rightarrow> (Inl (CallRaised, l1), w1)
           | Some msg \<Rightarrow>
               if status_code msg \<noteq> HTTP_OK
               then (Inl (AssertionError, l1\<lparr> error_msg := message msg \<rparr>), w1)
               else
                 (case choice msg of
                    None \<Rightarrow> (Inl (OutputUnreadable, l1), w1)
                  | Some m \<Rightarrow>
                      query_loop api nm kwargs parts
                        (l1\<lparr> results := results l1 @ [m],
                             messages := messages l1 @
                               [\<lparr> role = Assistant, content = reply_content m \<rparr>] \<rparr>) w1))"

definition fresh :: locals where
  "fresh = \<lparr> messages = [], results = [], error_msg = ''EMPTY_ERROR_MSG'' \<rparr>"

text \<open>The body of the \<open>try\<close> block: one round.\<close>

definition attempt :: "'u api \<Rightarrow> string \<Rightarrow> string list \<Rightarrow> pydict \<Rightarrow> pyval \<Rightarrow> 'u world
                         \<Rightarrow> (exn \<times> locals + locals) \<times> 'u world" where
  "attempt api nm prompt kwargs mt w =
     (if truthy mt
      then (case prompt of
              [] \<Rightarrow> (Inl (IndexError, fresh), w)
            | p # ps \<Rightarrow> query_loop api nm kwargs (str_split p SEPARATOR) fresh w)
      else query_loop api nm kwargs prompt fresh w)"

text \<open>The \<open>except\<close> branch: two warnings and one second of sleep.\<close>

definition back_off :: "string \<Rightarrow> 'u world \<Rightarrow> 'u world" where
  "back_off err w =
     w\<lparr> logged := logged w @ [(Warning, ''Receive error: '' @ err), (Warning, ''retrying...'')],
        slept := slept w + 1 \<rparr>"

text \<open>The loop \<open>for _ in range(self.max_try_times)\<close> and the \<open>raise\<close> behind it.\<close>

fun retry_loop :: "nat \<Rightarrow> 'u api \<Rightarrow> string \<Rightarrow> string list \<Rightarrow> pydict \<Rightarrow> pyval \<Rightarrow> 'u world
                     \<Rightarrow> (exn + reply list) \<times> 'u world" where
  "retry_loop 0 api nm prompt kwargs mt w = (Inl (ConnectionError ''Dashscope API error''), w)"
| "retry_loop (Suc n) api nm prompt kwargs mt w =
     (case attempt api nm prompt kwargs mt w of
        (Inr l, w1) \<Rightarrow> (Inr (results l), w1)
      | (Inl (e, l), w1) \<Rightarrow> retry_loop n api nm prompt kwargs mt (back_off (error_msg l) w1))"

definition request :: "'u api \<Rightarrow> 'a dashscope_scheme \<Rightarrow> string list \<Rightarrow> pydict \<Rightarrow> pyval \<Rightarrow> 'u world
                         \<Rightarrow> (exn + reply list) \<times> 'u world" where
  "request api self prompt kwargs mt w =
     retry_loop (max_try_times self) api (name self) prompt kwargs mt w"

text \<open>What \<open>generation\<close> returns: a list of strings, or a list holding one tuple.\<close>

datatype answer = Text string | Turns "string list"

definition generation :: "'u api \<Rightarrow> configured \<Rightarrow> string list \<Rightarrow> 'u world
                            \<Rightarrow> (exn + answer list) \<times> 'u world" where
  "generation api self batched_inputs w =
     (case request api self batched_inputs (generation_kwargs self) (multi_turn self) w of
        (Inl e, w1) \<Rightarrow> (Inl e, w1)
      | (Inr rs, w1) \<Rightarrow>
          (let answers = map reply_content rs
           in (Inr (if truthy (multi_turn self) then [Turns answers] else map Text answers), w1)))"

section \<open>Notions used to state the properties\<close>

subsection \<open>Resolved options\<close>

text \<open>
  The value that one pass of the loop of \<open>set_generation_args\<close> gives to \<open>key\<close>:
  the attribute of the model arguments, else the extra argument, else the default of
  \<open>max_tokens\<close>.
\<close>

definition resolved :: "model_arguments \<Rightarrow> pydict \<Rightarrow> string \<Rightarrow> pyval" where
  "resolved a extra key =
     (let value1 = (if getattr a key PNone = PNone then get extra key PNone else getattr a key PNone)
      in if key = ''max_tokens'' \<and> value1 = PNone then PInt 1024 else value1)"

subsection \<open>Reading the calls issued\<close>

abbreviation user_message :: "string \<Rightarrow> message" where
  "user_message q \<equiv> \<lparr> role = User, content = q \<rparr>"

abbreviation assistant_message :: "reply \<Rightarrow> message" where
  "assistant_message m \<equiv> \<lparr> role = Assistant, content = reply_content m \<rparr>"

text \<open>The reply that the program takes from a call: status OK and a readable output.\<close>

definition reply_of :: "call \<Rightarrow> reply option" where
  "reply_of c =
     (case call_returned c of
        None \<Rightarrow> None
      | Some msg \<Rightarrow> if status_code msg = HTTP_OK then choice msg else None)"

definition ok_call :: "call \<Rightarrow> bool" where
  "ok_call c = (reply_of c \<noteq> None)"

text \<open>The queries that pass the guard \<open>len(query) == 0\<close> of the loop.\<close>

definition turn_prompts :: "string list \<Rightarrow> string list" where
  "turn_prompts parts = filter (\<lambda>query. length query \<noteq> 0) parts"

text \<open>The value of \<open>parts\<close> (empty when \<open>prompt[0]\<close> raises).\<close>

definition parts_of :: "pyval \<Rightarrow> string list \<Rightarrow> string list" where
  "parts_of mt prompt =
     (if truthy mt then (case prompt of [] \<Rightarrow> [] | p # ps \<Rightarrow> str_split p SEPARATOR) else prompt)"

text \<open>
  \<open>round_trace nm kw ms qs cs\<close>: the calls \<open>cs\<close> are those of one round over the queries
  \<open>qs\<close> that starts from the conversation \<open>ms\<close>: each call sends the conversation so far
  and the next query, the reply is appended, and a call without a reply is the last one.
\<close>

fun round_trace :: "string \<Rightarrow> pydict \<Rightarrow> message list \<Rightarrow> string list \<Rightarrow> call list \<Rightarrow> bool" where
  "round_trace nm kw ms qs [] = True"
| "round_trace nm kw ms [] (c # cs) = False"
| "round_trace nm kw ms (q # qs) (c # cs) =
     (call_model c = nm \<and> call_kwargs c = kw \<and>
      call_messages c = ms @ [\<lparr> role = User, content = q \<rparr>] \<and>
      (case reply_of c of
         None \<Rightarrow> cs = []
       | Some m \<Rightarrow>
           round_trace nm kw
             (ms @ [\<lparr> role = User, content = q \<rparr>, \<lparr> role = Assistant, content = reply_content m \<rparr>])
             qs cs))"

text \<open>The conversation held after the calls \<open>cs\<close> of a round that started from \<open>ms\<close>.\<close>

definition conversation_after :: "message list \<Rightarrow> call list \<Rightarrow> message list" where
  "conversation_after ms cs =
     (if cs = [] then ms
      else call_messages (last cs) @
           (case reply_of (last cs) of
              None \<Rightarrow> []
            | Some m \<Rightarrow> [\<lparr> role = Assistant, content = reply_content m \<rparr>]))"

definition round_end :: "(exn \<times> locals + locals) \<Rightarrow> locals \<Rightarrow> string list \<Rightarrow> call list \<Rightarrow> bool" where
  "round_end res l qs cs =
     (case res of
        Inr l' \<Rightarrow>
          length cs = length qs \<and> list_all ok_call cs \<and>
          map Some (results l') = map Some (results l) @ map reply_of cs \<and>
          messages l' = conversation_after (messages l) cs
      | Inl (e, l') \<Rightarrow>
          cs \<noteq> [] \<and> \<not> ok_call (last cs) \<and> messages l' = conversation_after (messages l) cs \<and>
          e \<in> {AssertionError, CallRaised, OutputUnreadable})"

definition failed_round :: "string \<Rightarrow> pydict \<Rightarrow> string list \<Rightarrow> call list \<Rightarrow> bool" where
  "failed_round nm kw qs cs =
     (round_trace nm kw [] qs cs \<and> (if cs = [] then qs = [] else \<not> ok_call (last cs)))"

definition complete_round :: "string \<Rightarrow> pydict \<Rightarrow> string list \<Rightarrow> call list \<Rightarrow> reply list \<Rightarrow> bool" where
  "complete_round nm kw qs cs rs =
     (round_trace nm kw [] qs cs \<and> length cs = length qs \<and> list_all ok_call cs \<and>
      map Some rs = map reply_of cs)"

definition retry_warnings :: "string \<Rightarrow> (level \<times> string) list" where
  "retry_warnings err = [(Warning, ''Receive error: '' @ err), (Warning, ''retrying...'')]"


subsection \<open>Shapes of the call history\<close>

text \<open>User and assistant messages alternate, a user message first.\<close>

definition alternating :: "message list \<Rightarrow> bool" where
  "alternating ms = (\<forall>i < length ms. role (ms ! i) = (if even i then User else Assistant))"

text \<open>
  \<open>restarts first cs\<close>: in the calls \<open>cs\<close>, every call without a reply is followed, if
  by anything, by a call that sends the conversation \<open>first\<close>.
\<close>

fun restarts :: "message list \<Rightarrow> call list \<Rightarrow> bool" where
  "restarts first [] = True"
| "restarts first [c] = True"
| "restarts first (c # d # cs) =
     ((\<not> ok_call c \<longrightarrow> call_messages d = first) \<and> restarts first (d # cs))"

text \<open>
  \<open>paced cs\<close>: in the calls \<open>cs\<close>, a call that follows a call with a reply is issued at the
  same time, and a call that follows a call without a reply is issued one second later.
\<close>

fun paced :: "call list \<Rightarrow> bool" where
  "paced [] = True"
| "paced [c] = True"
| "paced (c # d # cs) =
     (call_time d = call_time c + (if ok_call c then 0 else 1) \<and> paced (d # cs))"

text \<open>The calls issued between the worlds \<open>w\<close> and \<open>w'\<close>.\<close>

definition new_calls :: "'u world \<Rightarrow> 'u world \<Rightarrow> call list" where
  "new_calls w w' = drop (length (calls w)) (calls w')"


text \<open>The local variables at the end of a round, whether it completed or raised.\<close>

definition final_locals :: "(exn \<times> locals + locals) \<Rightarrow> locals" where
  "final_locals res = (case res of Inl (e, l) \<Rightarrow> l | Inr l \<Rightarrow> l)"

subsection \<open>A scripted service and a sample object\<close>

text \<open>
  A remote service that plays a script: each call consumes the next entry, and raises
  once the script is over.
\<close>

definition scripted :: "(response option) list api" where
  "scripted u nm ms kw = (case u of [] \<Rightarrow> (None, []) | r # rs \<Rightarrow> (r, rs))"

definition ok :: "string \<Rightarrow> response option" where
  "ok s = Some (Response 200 [] (Some (Reply s)))"

definition busy :: "response option" where
  "busy = Some (Response 429 ''Requests rate limit exceeded'' None)"

text \<open>
  A \<open>Model.__init__\<close> that returns, and a tokenizer lookup that, as the library does,
  knows the names that start with \<open>qwen\<close> and raises for any other.
\<close>

definition returns :: "model_arguments \<Rightarrow> exn option" where
  "returns a = None"

definition qwen_only :: "string \<Rightarrow> exn + tokenizer" where
  "qwen_only nm =
     (if prefix ''qwen'' nm then Inr (Tokenizer nm)
      else Inl (UnsupportedModel (''Not support model: '' @ nm @ '', currently only support qwen models.'')))"

definition start :: "response option list \<Rightarrow> response option list world" where
  "start script = \<lparr> upstream = script, calls = [], slept = 0, logged = [] \<rparr>"

definition sample_args :: model_arguments where
  "sample_args =
     \<lparr> attr = [''top_p'' \<mapsto> PFloat (4 / 5)], seed = PInt 2023, dashscope_api_key = Some ''sk-0123456789abcdef'',
       model_name_or_path = ''qwen-turbo'', tokenizer_name_or_path = ''qwen-turbo'' \<rparr>"

definition sample :: dashscope where
  "sample =
     \<lparr> api_key = ''sk-0123456789abcdef'', args = sample_args, name = ''qwen-turbo'',
       model_type = ''instruction'', tokenizer = Tokenizer ''qwen-turbo'', max_try_times = 10 \<rparr>"

text \<open>Two scripts: ten failures in a row, and one failure in the middle of the first round.\<close>

definition outage :: "response option list" where
  "outage = [busy, None, Some (Response 200 [] None), busy, busy, None, None, busy, busy, None]"

definition recovering :: "response option list" where
  "recovering = [ok ''r1'', None, ok ''r3'', ok ''r4'']"

text \<open>The sample object after \<open>set_generation_args\<close>, without and with \<open>multi_turn\<close>.\<close>

definition sample_configured :: configured where
  "sample_configured = snd (set_generation_args sample Map.empty)"

definition sample_dialogue :: configured where
  "sample_dialogue = snd (set_generation_args sample [''multi_turn'' \<mapsto> PBool True])"

section \<open>Properties\<close>

subsection \<open>set\_generation\_args\<close>

lemma set_key_fst:
  "fst (set_key a (kw, ex) key) k =
     (if k = key \<and> resolved a ex key \<noteq> PNone then Some (resolved a ex key) else kw k)"
  by (auto simp: set_key_def resolved_def pop_def get_def Let_def split: option.splits prod.splits)

lemma set_key_snd:
  "k \<noteq> key \<Longrightarrow> snd (set_key a (kw, ex) key) k = ex k"
  by (auto simp: set_key_def pop_def Let_def split: option.splits prod.splits)

lemma resolved_cong:
  "ex1 k = ex2 k \<Longrightarrow> resolved a ex1 k = resolved a ex2 k"
  by (simp add: resolved_def get_def)

lemma foldl_set_key:
  "distinct ks \<Longrightarrow>
   fst (foldl (set_key a) (kw, ex) ks) k =
     (if k \<in> set ks \<and> resolved a ex k \<noteq> PNone then Some (resolved a ex k) else kw k)"
proof (induction ks arbitrary: kw ex)
  case Nil
  then show ?case by simp
next
  case (Cons key ks)
  obtain kw1 ex1 where s: "set_key a (kw, ex) key = (kw1, ex1)" by (cases "set_key a (kw, ex) key")
  have kw1: "kw1 k = (if k = key \<and> resolved a ex key \<noteq> PNone then Some (resolved a ex key) else kw k)"
    using set_key_fst [of a kw ex key k] s by simp
  have ex1: "k \<noteq> key \<Longrightarrow> resolved a ex1 k = resolved a ex k"
    using set_key_snd [of k key a kw ex] s by (intro resolved_cong) simp
  from Cons have "fst (foldl (set_key a) (kw1, ex1) ks) k =
     (if k \<in> set ks \<and> resolved a ex1 k \<noteq> PNone then Some (resolved a ex1 k) else kw1 k)"
    by simp
  with s kw1 ex1 Cons.prems show ?case by (cases "k = key") auto
qed

lemma foldl_set_key_other:
  "k \<notin> set ks \<Longrightarrow> snd (foldl (set_key a) (kw, ex) ks) k = ex k"
proof (induction ks arbitrary: kw ex)
  case Nil
  then show ?case by simp
next
  case (Cons key ks)
  obtain kw1 ex1 where s: "set_key a (kw, ex) key = (kw1, ex1)" by (cases "set_key a (kw, ex) key")
  with Cons show ?case using set_key_snd [of k key a kw ex] by simp
qed

lemma distinct_generation_keys: "distinct generation_keys"
  by (simp add: generation_keys_def)

lemma kwargs_listed:
  "fst (set_generation_args self extra) k =
     (if k = ''seed'' then
        (if eq_zero (get (fst (foldl (set_key (args self)) (Map.empty, extra) generation_keys)) ''temperature'' (PInt 1))
         then Some (seed (args self)) else None)
      else if k \<in> set generation_keys \<and> resolved (args self) extra k \<noteq> PNone
           then Some (resolved (args self) extra k) else None)"
  using foldl_set_key [OF distinct_generation_keys, of "args self" Map.empty extra k]
  by (auto simp: set_generation_args_def Let_def split: prod.splits)
     (auto simp: generation_keys_def)

lemma set_generation_args_stored:
  "generation_kwargs (snd (set_generation_args self extra)) = fst (set_generation_args self extra)"
  by (simp add: set_generation_args_def Let_def split: prod.splits)

lemma set_generation_args_multi_turn:
  "multi_turn (snd (set_generation_args self extra)) = get extra ''multi_turn'' (PBool False)"
  using foldl_set_key_other [of "''multi_turn''" generation_keys "args self" Map.empty extra]
  by (auto simp: set_generation_args_def Let_def pop_def get_def generation_keys_def
           split: prod.splits option.splits)

subsection \<open>Splitting\<close>






subsection \<open>One round\<close>

lemma query_loop_trace:
  "query_loop api nm kw parts l w = (res, w') \<Longrightarrow>
   \<exists>cs. calls w' = calls w @ cs \<and> slept w' = slept w \<and> logged w' = logged w \<and>
        round_trace nm kw (messages l) (turn_prompts parts) cs \<and>
        round_end res l (turn_prompts parts) cs"
proof (induction api nm kw parts l w arbitrary: res w' rule: query_loop.induct)
  case (1 api nm kwargs l w)
  then show ?case by (auto simp: turn_prompts_def round_end_def conversation_after_def)
next
  case (2 api nm kwargs query parts l w)
  show ?case
  proof (cases "length query = 0")
    case True
    with 2 show ?thesis by (simp add: turn_prompts_def)
  next
    case False
    define l1 where "l1 = l\<lparr> messages := messages l @ [\<lparr> role = User, content = query \<rparr>] \<rparr>"
    obtain r w1 where iss: "issue api nm (messages l1) kwargs w = (r, w1)"
      by (cases "issue api nm (messages l1) kwargs w")
    define c where "c = \<lparr> call_model = nm, call_messages = messages l1, call_kwargs = kwargs,
                          call_returned = r, call_time = slept w \<rparr>"
    have w1: "calls w1 = calls w @ [c]" "slept w1 = slept w" "logged w1 = logged w"
      using iss by (auto simp: issue_def c_def split: prod.splits)
    have tp: "turn_prompts (query # parts) = query # turn_prompts parts"
      using False by (simp add: turn_prompts_def)
    show ?thesis
    proof (cases "reply_of c")
      case None
      then have "\<not> ok_call c" by (simp add: ok_call_def)
      have "calls w' = calls w @ [c] \<and> slept w' = slept w \<and> logged w' = logged w \<and>
            round_trace nm kwargs (messages l) (turn_prompts (query # parts)) [c] \<and>
            round_end res l (turn_prompts (query # parts)) [c]"
        using "2.prems" False iss w1 None
        by (auto simp: tp l1_def [symmetric] round_end_def ok_call_def reply_of_def c_def
                 conversation_after_def split: option.splits if_splits)
           (auto simp: l1_def)
      then show ?thesis by blast
    next
      case (Some m)
      define l2 where "l2 = l1\<lparr> results := results l1 @ [m],
                             messages := messages l1 @ [\<lparr> role = Assistant, content = reply_content m \<rparr>] \<rparr>"
      have rec: "query_loop api nm kwargs parts l2 w1 = (res, w')"
        using "2.prems" False iss Some
        by (auto simp: l1_def [symmetric] l2_def reply_of_def c_def split: option.splits if_splits)
      have "\<exists>cs. calls w' = calls w1 @ cs \<and> slept w' = slept w1 \<and> logged w' = logged w1 \<and>
        round_trace nm kwargs (messages l2) (turn_prompts parts) cs \<and>
        round_end res l2 (turn_prompts parts) cs"
      proof -
        obtain msg where msg: "r = Some msg" "status_code msg = HTTP_OK" "choice msg = Some m"
          using Some by (auto simp: reply_of_def c_def split: option.splits if_splits)
        show ?thesis
          using "2.IH"(2) [of l1 "(r, w1)" r w1 msg m res w'] False iss msg rec
          by (simp add: l1_def l2_def)
      qed
      then obtain cs where cs: "calls w' = calls w1 @ cs" "slept w' = slept w1" "logged w' = logged w1"
        "round_trace nm kwargs (messages l2) (turn_prompts parts) cs"
        "round_end res l2 (turn_prompts parts) cs" by blast
      have "calls w' = calls w @ (c # cs) \<and> slept w' = slept w \<and> logged w' = logged w \<and>
            round_trace nm kwargs (messages l) (turn_prompts (query # parts)) (c # cs) \<and>
            round_end res l (turn_prompts (query # parts)) (c # cs)"
        using cs w1 Some
        by (auto simp: tp round_end_def ok_call_def l2_def l1_def c_def conversation_after_def
                 split: sum.splits)
      then show ?thesis by blast
    qed
  qed
qed

lemma attempt_trace:
  assumes "attempt api nm prompt kw mt w = (res, w')"
  shows "\<exists>cs. calls w' = calls w @ cs \<and> slept w' = slept w \<and> logged w' = logged w \<and>
              (case res of
                 Inr l' \<Rightarrow> complete_round nm kw (turn_prompts (parts_of mt prompt)) cs (results l') \<and>
                           messages l' = conversation_after [] cs
               | Inl (e, l') \<Rightarrow> failed_round nm kw (turn_prompts (parts_of mt prompt)) cs \<and>
                           (cs = [] \<longrightarrow> truthy mt \<and> prompt = []) \<and>
                           messages l' = conversation_after [] cs \<and>
                           e \<in> {AssertionError, CallRaised, OutputUnreadable, IndexError})"
proof (cases "truthy mt \<and> prompt = []")
  case True
  with assms have "res = Inl (IndexError, fresh)" "w' = w"
    by (auto simp: attempt_def)
  then show ?thesis
    using True by (auto simp: failed_round_def parts_of_def turn_prompts_def fresh_def conversation_after_def)
next
  case False
  then have "query_loop api nm kw (parts_of mt prompt) fresh w = (res, w')"
    using assms by (auto simp: attempt_def parts_of_def split: list.splits)
  from query_loop_trace [OF this] obtain cs where
    cs: "calls w' = calls w @ cs" "slept w' = slept w" "logged w' = logged w"
        "round_trace nm kw (messages fresh) (turn_prompts (parts_of mt prompt)) cs"
        "round_end res fresh (turn_prompts (parts_of mt prompt)) cs"
    by blast
  then show ?thesis
    by (auto simp: round_end_def failed_round_def complete_round_def fresh_def split: sum.splits)
qed


subsection \<open>Call histories\<close>

lemma conversation_after_Cons:
  "reply_of c = Some m \<Longrightarrow>
   conversation_after ms (c # cs) = conversation_after (call_messages c @ [assistant_message m]) cs"
  by (simp add: conversation_after_def)

lemma round_trace_prefix:
  "round_trace nm kw ms qs cs \<Longrightarrow> \<exists>rest. conversation_after ms cs = ms @ rest"
proof (induction nm kw ms qs cs rule: round_trace.induct)
  case (1 nm kw ms qs)
  then show ?case by (simp add: conversation_after_def)
next
  case (2 nm kw ms c cs)
  then show ?case by simp
next
  case (3 nm kw ms q qs c cs)
  show ?case
  proof (cases "reply_of c")
    case None
    with 3 show ?thesis by (simp add: conversation_after_def)
  next
    case (Some m)
    with 3 show ?thesis by (auto simp: conversation_after_Cons)
  qed
qed

lemma round_trace_butlast_ok:
  "round_trace nm kw ms qs cs \<Longrightarrow> list_all ok_call (butlast cs)"
  by (induction nm kw ms qs cs rule: round_trace.induct)
     (auto simp: ok_call_def split: option.splits)

lemma round_trace_length:
  "round_trace nm kw ms qs cs \<Longrightarrow> length cs \<le> length qs"
  by (induction nm kw ms qs cs rule: round_trace.induct) (auto split: option.splits)

lemma round_trace_last_message:
  "round_trace nm kw ms qs cs \<Longrightarrow> i < length cs \<Longrightarrow>
   call_model (cs ! i) = nm \<and> call_kwargs (cs ! i) = kw \<and>
   last (call_messages (cs ! i)) = user_message (qs ! i)"
proof (induction nm kw ms qs cs arbitrary: i rule: round_trace.induct)
  case (3 nm kw ms q qs c cs)
  then show ?case by (cases i) (auto split: option.splits)
qed simp_all

lemma round_trace_hd:
  "round_trace nm kw [] qs cs \<Longrightarrow> cs \<noteq> [] \<Longrightarrow> call_messages (hd cs) = [user_message (hd qs)]"
  by (cases cs; cases qs) auto

lemma round_trace_restarts:
  "round_trace nm kw ms qs cs \<Longrightarrow> restarts first cs"
proof (induction nm kw ms qs cs rule: round_trace.induct)
  case (3 nm kw ms q qs c cs)
  then show ?case by (cases cs) (auto simp: ok_call_def split: option.splits)
qed simp_all

lemma restarts_append:
  "restarts first xs \<Longrightarrow> restarts first ys \<Longrightarrow>
   (xs \<noteq> [] \<Longrightarrow> ys \<noteq> [] \<Longrightarrow> \<not> ok_call (last xs) \<Longrightarrow> call_messages (hd ys) = first) \<Longrightarrow>
   restarts first (xs @ ys)"
proof (induction first xs rule: restarts.induct)
  case (2 first c)
  then show ?case by (cases ys) auto
qed auto

lemma restarts_nth:
  "restarts first cs \<Longrightarrow> Suc i < length cs \<Longrightarrow> \<not> ok_call (cs ! i) \<Longrightarrow>
   call_messages (cs ! Suc i) = first"
proof (induction first cs arbitrary: i rule: restarts.induct)
  case (3 first c d cs)
  then show ?case by (cases i) auto
qed simp_all

lemma rounds_restart:
  assumes "\<forall>f \<in> set fs. failed_round nm kw qs f"
    and "fin = [] \<or> round_trace nm kw [] qs fin"
  shows "restarts [user_message (hd qs)] (concat fs @ fin) \<and>
         (concat fs @ fin \<noteq> [] \<longrightarrow> call_messages (hd (concat fs @ fin)) = [user_message (hd qs)])"
  using assms
proof (induction fs)
  case Nil
  then show ?case by (auto simp: round_trace_restarts round_trace_hd)
next
  case (Cons f fs)
  then have f: "round_trace nm kw [] qs f" and ih:
    "restarts [user_message (hd qs)] (concat fs @ fin)"
    "concat fs @ fin \<noteq> [] \<Longrightarrow> call_messages (hd (concat fs @ fin)) = [user_message (hd qs)]"
    by (auto simp: failed_round_def)
  have "restarts [user_message (hd qs)] (f @ (concat fs @ fin))"
  proof (rule restarts_append)
    show "restarts [user_message (hd qs)] f" by (rule round_trace_restarts [OF f])
    show "restarts [user_message (hd qs)] (concat fs @ fin)" by (rule ih(1))
    show "call_messages (hd (concat fs @ fin)) = [user_message (hd qs)]"
      if "concat fs @ fin \<noteq> []" using that by (rule ih(2))
  qed
  moreover have "call_messages (hd (f @ concat fs @ fin)) = [user_message (hd qs)]"
    if "f @ concat fs @ fin \<noteq> []"
    using that round_trace_hd [OF f] ih(2) by (cases f) auto
  ultimately show ?case by simp
qed

lemma failed_round_count:
  assumes "failed_round nm kw qs f"
  shows "length (filter (\<lambda>c. \<not> ok_call c) f) = (if f = [] then 0 else 1)"
proof (cases "f = []")
  case True
  then show ?thesis by simp
next
  case False
  then have f: "f = butlast f @ [last f]" by simp
  have "filter (\<lambda>c. \<not> ok_call c) (butlast f) = []"
    using assms round_trace_butlast_ok [of nm kw "[]" qs f]
    by (auto simp: failed_round_def list_all_iff filter_empty_conv)
  moreover have "\<not> ok_call (last f)" using assms False by (simp add: failed_round_def)
  ultimately have "length (filter (\<lambda>c. \<not> ok_call c) (butlast f @ [last f])) = 1" by simp
  with f False show ?thesis by simp
qed

lemma failed_rounds_count:
  "\<forall>f \<in> set fs. failed_round nm kw qs f \<Longrightarrow>
   length (filter (\<lambda>c. \<not> ok_call c) (concat fs)) = length (filter (\<lambda>f. f \<noteq> []) fs)"
proof (induction fs)
  case (Cons f fs)
  then show ?case using failed_round_count [of nm kw qs f] by auto
qed simp

lemma alternating_turn:
  assumes "alternating ms" "even (length ms)"
  shows "alternating (ms @ [user_message q])"
    and "alternating (ms @ [user_message q, assistant_message m])"
  using assms by (auto simp: alternating_def nth_append less_Suc_eq)

lemma alternating_take: "alternating ms \<Longrightarrow> alternating (take n ms)"
  by (simp add: alternating_def)

lemma alternating_empty: "alternating []"
  by (simp add: alternating_def)

lemma round_trace_alternating:
  "round_trace nm kw ms qs cs \<Longrightarrow> alternating ms \<Longrightarrow> even (length ms) \<Longrightarrow>
   alternating (conversation_after ms cs)"
proof (induction nm kw ms qs cs rule: round_trace.induct)
  case (1 nm kw ms qs)
  then show ?case by (simp add: conversation_after_def)
next
  case (2 nm kw ms c cs)
  then show ?case by simp
next
  case (3 nm kw ms q qs c cs)
  show ?case
  proof (cases "reply_of c")
    case None
    with 3 show ?thesis by (simp add: conversation_after_def alternating_turn)
  next
    case (Some m)
    with 3 show ?thesis by (simp add: conversation_after_Cons alternating_turn)
  qed
qed

lemma round_trace_sent:
  "round_trace nm kw ms qs cs \<Longrightarrow> k < length cs \<Longrightarrow>
   length ms + 2 * k + 1 \<le> length (conversation_after ms cs) \<and>
   take (length ms + 2 * k + 1) (conversation_after ms cs) = call_messages (cs ! k)"
proof (induction nm kw ms qs cs arbitrary: k rule: round_trace.induct)
  case (1 nm kw ms qs)
  then show ?case by simp
next
  case (2 nm kw ms c cs)
  then show ?case by simp
next
  case (3 nm kw ms q qs c cs)
  show ?case
  proof (cases "reply_of c")
    case None
    with 3 show ?thesis by (simp add: conversation_after_def)
  next
    case (Some m)
    let ?ms1 = "ms @ [user_message q, assistant_message m]"
    from 3 Some have rt: "round_trace nm kw ?ms1 qs cs" and cm: "call_messages c = ms @ [user_message q]"
      by simp_all
    have ca: "conversation_after ms (c # cs) = conversation_after ?ms1 cs"
      using Some cm by (simp add: conversation_after_Cons)
    from round_trace_prefix [OF rt] obtain rest where rest: "conversation_after ?ms1 cs = ?ms1 @ rest"
      by blast
    show ?thesis
    proof (cases k)
      case 0
      then show ?thesis using cm by (simp add: ca rest)
    next
      case (Suc k')
      with "3.prems" have "k' < length cs" by simp
      from "3.IH" [OF Some rt this] show ?thesis using Suc by (simp add: ca)
    qed
  qed
qed

lemma round_trace_answer:
  "round_trace nm kw ms qs cs \<Longrightarrow> length ms + 2 * k + 1 < length (conversation_after ms cs) \<Longrightarrow>
   k < length cs \<and>
   (\<exists>m. reply_of (cs ! k) = Some m \<and>
        conversation_after ms cs ! (length ms + 2 * k + 1) = assistant_message m)"
proof (induction nm kw ms qs cs arbitrary: k rule: round_trace.induct)
  case (1 nm kw ms qs)
  then show ?case by (simp add: conversation_after_def)
next
  case (2 nm kw ms c cs)
  then show ?case by simp
next
  case (3 nm kw ms q qs c cs)
  show ?case
  proof (cases "reply_of c")
    case None
    with 3 show ?thesis by (simp add: conversation_after_def)
  next
    case (Some m)
    let ?ms1 = "ms @ [user_message q, assistant_message m]"
    from 3 Some have rt: "round_trace nm kw ?ms1 qs cs" and cm: "call_messages c = ms @ [user_message q]"
      by simp_all
    have ca: "conversation_after ms (c # cs) = conversation_after ?ms1 cs"
      using Some cm by (simp add: conversation_after_Cons)
    from round_trace_prefix [OF rt] obtain rest where rest: "conversation_after ?ms1 cs = ?ms1 @ rest"
      by blast
    show ?thesis
    proof (cases k)
      case 0
      then show ?thesis using Some by (simp add: ca rest nth_append)
    next
      case (Suc k')
      with "3.prems" have "length ?ms1 + 2 * k' + 1 < length (conversation_after ?ms1 cs)"
        by (simp add: ca)
      from "3.IH" [OF Some rt this] show ?thesis using Suc by (simp add: ca)
    qed
  qed
qed

lemma round_trace_conversation_length:
  "round_trace nm kw ms qs cs \<Longrightarrow> length (conversation_after ms cs) \<le> length ms + 2 * length cs"
proof (induction nm kw ms qs cs rule: round_trace.induct)
  case (1 nm kw ms qs)
  then show ?case by (simp add: conversation_after_def)
next
  case (2 nm kw ms c cs)
  then show ?case by simp
next
  case (3 nm kw ms q qs c cs)
  show ?case
  proof (cases "reply_of c")
    case None
    with 3 show ?thesis by (simp add: conversation_after_def)
  next
    case (Some m)
    with 3 show ?thesis by (simp add: conversation_after_Cons)
  qed
qed

subsection \<open>The retry loop\<close>

lemma retry_loop_trace:
  "retry_loop n api nm prompt kw mt w = (res, w') \<Longrightarrow>
   \<exists>fs fin errs.
      calls w' = calls w @ concat fs @ fin \<and> slept w' = slept w + length fs \<and>
      logged w' = logged w @ concat (map retry_warnings errs) \<and> length errs = length fs \<and>
      length fs \<le> n \<and>
      (\<forall>f \<in> set fs. failed_round nm kw (turn_prompts (parts_of mt prompt)) f \<and>
                        (f = [] \<longrightarrow> truthy mt \<and> prompt = [])) \<and>
      (case res of
         Inr rs \<Rightarrow> complete_round nm kw (turn_prompts (parts_of mt prompt)) fin rs \<and> length fs < n
       | Inl e \<Rightarrow> e = ConnectionError ''Dashscope API error'' \<and> length fs = n \<and> fin = [])"
proof (induction n arbitrary: w res w')
  case 0
  then have "calls w' = calls w @ concat [] @ [] \<and> slept w' = slept w + length ([]::call list list) \<and>
      logged w' = logged w @ concat (map retry_warnings []) \<and> length ([]::string list) = length ([]::call list list) \<and>
      res = Inl (ConnectionError ''Dashscope API error'')"
    by auto
  then show ?case by (intro exI [of _ "[]"]) auto
next
  case (Suc n)
  obtain r w1 where att: "attempt api nm prompt kw mt w = (r, w1)"
    by (cases "attempt api nm prompt kw mt w")
  have "\<exists>cs. calls w1 = calls w @ cs \<and> slept w1 = slept w \<and> logged w1 = logged w \<and>
        (case r of
           Inr l' \<Rightarrow> complete_round nm kw (turn_prompts (parts_of mt prompt)) cs (results l')
         | Inl (e, l') \<Rightarrow> failed_round nm kw (turn_prompts (parts_of mt prompt)) cs \<and>
                        (cs = [] \<longrightarrow> truthy mt \<and> prompt = []))"
    using attempt_trace [OF att] by (cases r) auto
  then obtain cs where
    cs: "calls w1 = calls w @ cs" "slept w1 = slept w" "logged w1 = logged w"
        "case r of
           Inr l' \<Rightarrow> complete_round nm kw (turn_prompts (parts_of mt prompt)) cs (results l')
         | Inl (e, l') \<Rightarrow> failed_round nm kw (turn_prompts (parts_of mt prompt)) cs \<and>
                        (cs = [] \<longrightarrow> truthy mt \<and> prompt = [])"
    by blast
  show ?case
  proof (cases r)
    case (Inr l')
    with Suc.prems att have "res = Inr (results l')" "w' = w1" by auto
    with cs Inr have "calls w' = calls w @ concat [] @ cs \<and> slept w' = slept w + length ([]::call list list) \<and>
      logged w' = logged w @ concat (map retry_warnings []) \<and> length ([]::string list) = length ([]::call list list) \<and>
      complete_round nm kw (turn_prompts (parts_of mt prompt)) cs (results l')"
      by auto
    then show ?thesis using \<open>res = Inr (results l')\<close>
      by (intro exI [of _ "[]"] exI [of _ cs]) auto
  next
    case (Inl el)
    obtain e l' where el: "el = (e, l')" by (cases el)
    define w2 where "w2 = back_off (error_msg l') w1"
    have rec: "retry_loop n api nm prompt kw mt w2 = (res, w')"
      using Suc.prems att Inl el by (simp add: w2_def)
    have w2: "calls w2 = calls w @ cs" "slept w2 = slept w + 1"
             "logged w2 = logged w @ retry_warnings (error_msg l')"
      using cs by (auto simp: w2_def back_off_def retry_warnings_def)
    from Suc.IH [OF rec] obtain fs fin errs where
      ih: "calls w' = calls w2 @ concat fs @ fin" "slept w' = slept w2 + length fs"
          "logged w' = logged w2 @ concat (map retry_warnings errs)" "length errs = length fs"
          "length fs \<le> n"
          "\<forall>f \<in> set fs. failed_round nm kw (turn_prompts (parts_of mt prompt)) f \<and>
                          (f = [] \<longrightarrow> truthy mt \<and> prompt = [])"
          "case res of
             Inr rs \<Rightarrow> complete_round nm kw (turn_prompts (parts_of mt prompt)) fin rs \<and> length fs < n
           | Inl e \<Rightarrow> e = ConnectionError ''Dashscope API error'' \<and> length fs = n \<and> fin = []"
      by blast
    have fr: "failed_round nm kw (turn_prompts (parts_of mt prompt)) cs"
             "cs = [] \<longrightarrow> truthy mt \<and> prompt = []"
      using cs(4) Inl el by simp_all
    have "calls w' = calls w @ concat (cs # fs) @ fin \<and> slept w' = slept w + length (cs # fs) \<and>
      logged w' = logged w @ concat (map retry_warnings (error_msg l' # errs)) \<and>
      length (error_msg l' # errs) = length (cs # fs) \<and> length (cs # fs) \<le> Suc n \<and>
      (\<forall>f \<in> set (cs # fs). failed_round nm kw (turn_prompts (parts_of mt prompt)) f \<and>
                        (f = [] \<longrightarrow> truthy mt \<and> prompt = [])) \<and>
      (case res of
         Inr rs \<Rightarrow> complete_round nm kw (turn_prompts (parts_of mt prompt)) fin rs \<and> length (cs # fs) < Suc n
       | Inl e \<Rightarrow> e = ConnectionError ''Dashscope API error'' \<and> length (cs # fs) = Suc n \<and> fin = [])"
      using ih w2 fr by (auto split: sum.splits)
    then show ?thesis by blast
  qed
qed


lemma request_trace:
  assumes "request api self prompt kw mt w = (res, w')"
  shows "\<exists>fs fin errs.
      new_calls w w' = concat fs @ fin \<and> slept w' = slept w + length fs \<and>
      logged w' = logged w @ concat (map retry_warnings errs) \<and> length errs = length fs \<and>
      length fs \<le> max_try_times self \<and>
      (\<forall>f \<in> set fs. failed_round (name self) kw (turn_prompts (parts_of mt prompt)) f \<and>
                        (f = [] \<longrightarrow> truthy mt \<and> prompt = [])) \<and>
      (case res of
         Inr rs \<Rightarrow> complete_round (name self) kw (turn_prompts (parts_of mt prompt)) fin rs \<and>
                   length fs < max_try_times self
       | Inl e \<Rightarrow> e = ConnectionError ''Dashscope API error'' \<and> length fs = max_try_times self \<and> fin = [])"
proof -
  from retry_loop_trace [OF assms [unfolded request_def]] obtain fs fin errs where
    t: "calls w' = calls w @ concat fs @ fin" "slept w' = slept w + length fs"
       "logged w' = logged w @ concat (map retry_warnings errs)" "length errs = length fs"
       "length fs \<le> max_try_times self"
       "\<forall>f \<in> set fs. failed_round (name self) kw (turn_prompts (parts_of mt prompt)) f \<and>
                        (f = [] \<longrightarrow> truthy mt \<and> prompt = [])"
       "case res of
          Inr rs \<Rightarrow> complete_round (name self) kw (turn_prompts (parts_of mt prompt)) fin rs \<and>
                    length fs < max_try_times self
        | Inl e \<Rightarrow> e = ConnectionError ''Dashscope API error'' \<and> length fs = max_try_times self \<and> fin = []"
    by blast
  from t(1) have "new_calls w w' = concat fs @ fin" by (simp add: new_calls_def)
  with t show ?thesis by blast
qed

lemma request_success_last_ok:
  assumes "request api self prompt kw mt w = (Inr rs, w')" and "new_calls w w' \<noteq> []"
  shows "ok_call (last (new_calls w w'))"
proof -
  define qs where "qs = turn_prompts (parts_of mt prompt)"
  from request_trace [OF assms(1)] obtain fs fin where
    t: "new_calls w w' = concat fs @ fin"
       "\<forall>f \<in> set fs. failed_round (name self) kw qs f"
       "complete_round (name self) kw qs fin rs"
    unfolding qs_def by auto
  show ?thesis
  proof (cases "fin = []")
    case True
    with t(3) have "qs = []" by (simp add: complete_round_def)
    have "f = []" if "f \<in> set fs" for f
      using t(2) that \<open>qs = []\<close> by (cases f) (auto simp: failed_round_def)
    then have "concat fs = []" by simp
    with True t(1) assms(2) show ?thesis by simp
  next
    case False
    then have "last (new_calls w w') = last fin" using t(1) by simp
    moreover have "ok_call (last fin)"
      using t(3) False by (auto simp: complete_round_def list_all_iff)
    ultimately show ?thesis by simp
  qed
qed

lemmas run_defs = request_def attempt_def fresh_def issue_def back_off_def scripted_def start_def
  sample_def sample_args_def ok_def busy_def HTTP_OK_def

lemma retry_loop_last_round:
  assumes "retry_loop n api nm prompt kw mt w = (Inr rs, w')"
  shows "\<exists>pre fin. calls w' = calls w @ pre @ fin \<and>
           complete_round nm kw (turn_prompts (parts_of mt prompt)) fin rs \<and>
           (\<forall>c \<in> set (pre @ fin). call_model c = nm \<and> call_kwargs c = kw)"
proof -
  define qs where "qs = turn_prompts (parts_of mt prompt)"
  from retry_loop_trace [OF assms] obtain fs fin where
    t: "calls w' = calls w @ concat fs @ fin"
       "\<forall>f \<in> set fs. failed_round nm kw qs f"
       "complete_round nm kw qs fin rs"
    unfolding qs_def by auto
  have "call_model c = nm \<and> call_kwargs c = kw" if "round_trace nm kw [] qs f" "c \<in> set f" for f c
    using that round_trace_last_message [of nm kw "[]" qs f] by (auto simp: in_set_conv_nth)
  then have "\<forall>c \<in> set (concat fs @ fin). call_model c = nm \<and> call_kwargs c = kw"
    using t(2,3) by (auto simp: failed_round_def complete_round_def)
  with t show ?thesis unfolding qs_def by blast
qed

lemma set_generation_args_fields:
  "name (snd (set_generation_args self extra)) = name self"
  "max_try_times (snd (set_generation_args self extra)) = max_try_times self"
  "args (snd (set_generation_args self extra)) = args self"
  by (simp_all add: set_generation_args_def Let_def split: prod.splits)

lemma request_calls_kwargs:
  assumes "request api self prompt kw mt w = (res, w')"
  shows "\<forall>c \<in> set (new_calls w w'). call_model c = name self \<and> call_kwargs c = kw"
proof -
  define qs where "qs = turn_prompts (parts_of mt prompt)"
  from request_trace [OF assms] obtain fs fin where
    t: "new_calls w w' = concat fs @ fin"
       "\<forall>f \<in> set fs. failed_round (name self) kw qs f"
       "case res of Inr rs \<Rightarrow> complete_round (name self) kw qs fin rs | Inl e \<Rightarrow> fin = []"
    unfolding qs_def by (cases res) auto
  have "call_model c = name self \<and> call_kwargs c = kw"
    if "round_trace (name self) kw [] qs f" "c \<in> set f" for f c
    using that round_trace_last_message [of "name self" kw "[]" qs f] by (auto simp: in_set_conv_nth)
  then show ?thesis
    using t by (cases res) (auto simp: failed_round_def complete_round_def)
qed

lemma generation_world:
  "snd (generation api self inputs w) =
   snd (request api self inputs (generation_kwargs self) (multi_turn self) w)"
  by (simp add: generation_def Let_def split: prod.splits sum.splits)

lemma temperature_resolved:
  "fst (foldl (set_key (args self)) (Map.empty, extra) generation_keys) ''temperature'' =
   fst (set_generation_args self extra) ''temperature''"
  using foldl_set_key [OF distinct_generation_keys, of "args self" Map.empty extra "''temperature''"]
  by (simp add: kwargs_listed)

lemma sample_configured_fields:
  "name sample_configured = ''qwen-turbo''" "max_try_times sample_configured = 10"
  "multi_turn sample_configured = PBool False"
  "name sample_dialogue = ''qwen-turbo''" "max_try_times sample_dialogue = 10"
  "multi_turn sample_dialogue = PBool True"
  by (simp_all add: sample_configured_def sample_dialogue_def set_generation_args_fields
        set_generation_args_multi_turn get_def sample_def)

lemmas gen_defs = generation_def request_def attempt_def fresh_def issue_def back_off_def scripted_def
  start_def ok_def busy_def HTTP_OK_def sample_configured_fields str_split_def SEPARATOR_def

subsection \<open>Timing of the calls\<close>

lemma query_loop_times:
  "query_loop api nm kw parts l w = (res, w') \<Longrightarrow>
   \<exists>cs. calls w' = calls w @ cs \<and> (\<forall>c \<in> set cs. call_time c = slept w)"
proof (induction api nm kw parts l w arbitrary: res w' rule: query_loop.induct)
  case (1 api nm kwargs l w)
  then show ?case by auto
next
  case (2 api nm kwargs query parts l w)
  show ?case
  proof (cases "length query = 0")
    case True
    with 2 show ?thesis by simp
  next
    case False
    define l1 where "l1 = l\<lparr> messages := messages l @ [\<lparr> role = User, content = query \<rparr>] \<rparr>"
    obtain r w1 where iss: "issue api nm (messages l1) kwargs w = (r, w1)"
      by (cases "issue api nm (messages l1) kwargs w")
    then obtain c where w1: "calls w1 = calls w @ [c]" "call_time c = slept w" "slept w1 = slept w"
      by (auto simp: issue_def split: prod.splits)
    show ?thesis
    proof (cases "reply_of \<lparr> call_model = nm, call_messages = messages l1, call_kwargs = kwargs,
                              call_returned = r, call_time = slept w \<rparr>")
      case None
      then have "w' = w1"
        using "2.prems" False iss
        by (auto simp: l1_def [symmetric] reply_of_def split: option.splits if_splits)
      with w1 show ?thesis by auto
    next
      case (Some m)
      then obtain msg where msg: "r = Some msg" "status_code msg = HTTP_OK" "choice msg = Some m"
        by (auto simp: reply_of_def split: option.splits if_splits)
      define l2 where "l2 = l1\<lparr> results := results l1 @ [m],
                             messages := messages l1 @ [\<lparr> role = Assistant, content = reply_content m \<rparr>] \<rparr>"
      have rec: "query_loop api nm kwargs parts l2 w1 = (res, w')"
        using "2.prems" False iss msg by (simp add: l1_def [symmetric] l2_def)
      have "\<exists>cs. calls w' = calls w1 @ cs \<and> (\<forall>c \<in> set cs. call_time c = slept w1)"
        using "2.IH"(2) [of l1 "(r, w1)" r w1 msg m res w'] False iss msg rec
        by (simp add: l1_def l2_def)
      then obtain cs where "calls w' = calls w1 @ cs" "\<forall>c \<in> set cs. call_time c = slept w1"
        by blast
      with w1 have "calls w' = calls w @ (c # cs) \<and> (\<forall>d \<in> set (c # cs). call_time d = slept w)"
        by simp
      then show ?thesis by blast
    qed
  qed
qed

lemma attempt_times:
  assumes "attempt api nm prompt kw mt w = (res, w')"
  shows "\<forall>c \<in> set (new_calls w w'). call_time c = slept w"
proof (cases "truthy mt \<and> prompt = []")
  case True
  with assms have "w' = w" by (auto simp: attempt_def)
  then show ?thesis by (simp add: new_calls_def)
next
  case False
  then have "query_loop api nm kw (parts_of mt prompt) fresh w = (res, w')"
    using assms by (auto simp: attempt_def parts_of_def split: list.splits)
  from query_loop_times [OF this] show ?thesis by (auto simp: new_calls_def)
qed

lemma round_trace_paced:
  "round_trace nm kw ms qs cs \<Longrightarrow> \<forall>c \<in> set cs. call_time c = t \<Longrightarrow> paced cs"
proof (induction nm kw ms qs cs rule: round_trace.induct)
  case (3 nm kw ms q qs c cs)
  then show ?case by (cases cs) (auto simp: ok_call_def split: option.splits)
qed simp_all

lemma paced_append:
  "paced xs \<Longrightarrow> paced ys \<Longrightarrow>
   (xs \<noteq> [] \<Longrightarrow> ys \<noteq> [] \<Longrightarrow>
      call_time (hd ys) = call_time (last xs) + (if ok_call (last xs) then 0 else 1)) \<Longrightarrow>
   paced (xs @ ys)"
proof (induction xs rule: paced.induct)
  case (2 c)
  then show ?case by (cases ys) auto
qed auto

lemma paced_nth:
  "paced cs \<Longrightarrow> Suc i < length cs \<Longrightarrow>
   call_time (cs ! Suc i) = call_time (cs ! i) + (if ok_call (cs ! i) then 0 else 1)"
proof (induction cs arbitrary: i rule: paced.induct)
  case (3 c d cs)
  then show ?case by (cases i) auto
qed simp_all

lemma retry_loop_without_prompt:
  "truthy mt \<Longrightarrow> calls (snd (retry_loop n api nm [] kw mt w)) = calls w"
  by (induction n arbitrary: w) (auto simp: attempt_def back_off_def)

lemma retry_loop_paced:
  "retry_loop n api nm prompt kw mt w = (res, w') \<Longrightarrow>
   paced (new_calls w w') \<and>
   (new_calls w w' \<noteq> [] \<longrightarrow> call_time (hd (new_calls w w')) = slept w)"
proof (induction n arbitrary: w res w')
  case 0
  then show ?case by (auto simp: new_calls_def)
next
  case (Suc n)
  show ?case
  proof (cases "truthy mt \<and> prompt = []")
    case True
    with Suc.prems retry_loop_without_prompt [of mt "Suc n" api nm kw w]
    have "new_calls w w' = []" by (simp add: new_calls_def)
    then show ?thesis by simp
  next
    case False
    obtain r w1 where att: "attempt api nm prompt kw mt w = (r, w1)"
      by (cases "attempt api nm prompt kw mt w")
    from attempt_trace [OF att] obtain cs1 where
      c1: "calls w1 = calls w @ cs1" "slept w1 = slept w"
          "round_trace nm kw [] (turn_prompts (parts_of mt prompt)) cs1"
          "\<forall>e l. r = Inl (e, l) \<longrightarrow> cs1 \<noteq> [] \<and> \<not> ok_call (last cs1)"
      using False
      by (cases r) (auto simp: complete_round_def failed_round_def split: if_splits)
    have n1: "new_calls w w1 = cs1" using c1(1) by (simp add: new_calls_def)
    have t1: "\<forall>c \<in> set cs1. call_time c = slept w"
      using attempt_times [OF att] by (simp add: n1)
    have p1: "paced cs1" using round_trace_paced [OF c1(3) t1] .
    have h1: "cs1 \<noteq> [] \<longrightarrow> call_time (hd cs1) = slept w" using t1 by auto
    show ?thesis
    proof (cases r)
      case (Inr l')
      with Suc.prems att have "w' = w1" by auto
      with n1 p1 h1 show ?thesis by simp
    next
      case (Inl el)
      obtain e l' where el: "el = (e, l')" by (cases el)
      define w2 where "w2 = back_off (error_msg l') w1"
      have rec: "retry_loop n api nm prompt kw mt w2 = (res, w')"
        using Suc.prems att Inl el by (simp add: w2_def)
      have w2: "calls w2 = calls w @ cs1" "slept w2 = slept w + 1"
        using c1 by (auto simp: w2_def back_off_def)
      from retry_loop_trace [OF rec] obtain cs2 where c2: "calls w' = calls w2 @ cs2"
        by blast
      then have n2: "new_calls w2 w' = cs2" by (simp add: new_calls_def)
      from Suc.IH [OF rec] have
        ih: "paced cs2" "cs2 \<noteq> [] \<longrightarrow> call_time (hd cs2) = slept w + 1"
        by (simp_all add: n2 w2)
      from c1(4) Inl el have bad: "cs1 \<noteq> []" "\<not> ok_call (last cs1)" by auto
      have "call_time (last cs1) = slept w" using t1 bad(1) by simp
      with ih bad have "paced (cs1 @ cs2)"
        using p1 by (intro paced_append) auto
      moreover have "new_calls w w' = cs1 @ cs2"
        using c2 w2 by (simp add: new_calls_def)
      ultimately show ?thesis using h1 bad(1) by simp
    qed
  qed
qed

lemma paced_last:
  "paced cs \<Longrightarrow> cs \<noteq> [] \<Longrightarrow>
   call_time (last cs) + (if ok_call (last cs) then 0 else 1) =
   call_time (hd cs) + length (filter (\<lambda>c. \<not> ok_call c) cs)"
  by (induction cs rule: paced.induct) auto

subsection \<open>The claims\<close>

text \<open>
  C9. If \<open>max_tokens\<close> is unset (missing or \<open>None\<close>) in the model arguments and in the
  extra arguments, the resolved options hold \<open>max_tokens = 1024\<close>; for every listed key, a
  value set in the model arguments is the resolved one, whatever the extra arguments say.
  The resolved options are what the object stores as \<open>generation_kwargs\<close>.
\<close>

theorem set_generation_args_default_and_precedence:
  "((attr (args self) ''max_tokens'' = None \<or> attr (args self) ''max_tokens'' = Some PNone) \<and>
    (extra ''max_tokens'' = None \<or> extra ''max_tokens'' = Some PNone)
      \<longrightarrow> fst (set_generation_args self extra) ''max_tokens'' = Some (PInt 1024)) \<and>
   (key \<in> set generation_keys \<and> attr (args self) key = Some v \<and> v \<noteq> PNone
      \<longrightarrow> fst (set_generation_args self extra) key = Some v) \<and>
   generation_kwargs (snd (set_generation_args self extra)) = fst (set_generation_args self extra)"
proof (intro conjI impI)
  assume "(attr (args self) ''max_tokens'' = None \<or> attr (args self) ''max_tokens'' = Some PNone) \<and>
    (extra ''max_tokens'' = None \<or> extra ''max_tokens'' = Some PNone)"
  then have "resolved (args self) extra ''max_tokens'' = PInt 1024"
    by (auto simp: resolved_def getattr_def get_def)
  then show "fst (set_generation_args self extra) ''max_tokens'' = Some (PInt 1024)"
    by (simp add: kwargs_listed generation_keys_def)
next
  assume a: "key \<in> set generation_keys \<and> attr (args self) key = Some v \<and> v \<noteq> PNone"
  then have "resolved (args self) extra key = v"
    by (auto simp: resolved_def getattr_def)
  moreover have "key \<noteq> ''seed''"
    using a by (auto simp: generation_keys_def)
  ultimately show "fst (set_generation_args self extra) key = Some v"
    using a by (simp add: kwargs_listed)
next
  show "generation_kwargs (snd (set_generation_args self extra)) = fst (set_generation_args self extra)"
    by (rule set_generation_args_stored)
qed

theorem set_generation_args_default_and_precedence_witness:
  "fst (set_generation_args sample [''top_p'' \<mapsto> PFloat (1 / 2)]) ''max_tokens'' = Some (PInt 1024) \<and>
   fst (set_generation_args sample [''top_p'' \<mapsto> PFloat (1 / 2)]) ''top_p'' = Some (PFloat (4 / 5))"
  using set_generation_args_default_and_precedence
          [of sample "[''top_p'' \<mapsto> PFloat (1 / 2)]" "''top_p''" "PFloat (4 / 5)"]
  by (simp add: sample_def sample_args_def generation_keys_def)

text \<open>
  C10. With a true \<open>multi_turn\<close>, \<open>request\<close> reads the first element of the batch only:
  the round runs over the pieces of \<open>prompt[0]\<close>, and the result and every effect (the calls
  issued among them) are those of the batch cut down to its first element.
\<close>

theorem multi_turn_reads_first_prompt_only:
  "truthy mt \<Longrightarrow>
   attempt api nm (p # ps) kwargs mt w = query_loop api nm kwargs (str_split p SEPARATOR) fresh w \<and>
   request api self (p # ps) kwargs mt w = request api self [p] kwargs mt w"
proof -
  assume mt: "truthy mt"
  have att: "attempt api nm q kwargs mt v = query_loop api nm kwargs (str_split p SEPARATOR) fresh v"
    if "q = p # ps \<or> q = [p]" for nm q v
    using that mt by (auto simp: attempt_def)
  have "retry_loop n api nm (p # ps) kwargs mt v = retry_loop n api nm [p] kwargs mt v" for n nm v
    by (induction n arbitrary: v) (simp_all add: att split: prod.splits sum.splits)
  then show ?thesis
    using att by (simp add: request_def)
qed

theorem multi_turn_reads_first_prompt_only_witness:
  "truthy (PBool True) \<and>
   request scripted sample [''Hi__SEPARATOR__How are you?'', ''ignored''] Map.empty (PBool True)
     (start [ok ''r1'', ok ''r2'']) =
   request scripted sample [''Hi__SEPARATOR__How are you?''] Map.empty (PBool True)
     (start [ok ''r1'', ok ''r2''])"
  using multi_turn_reads_first_prompt_only
          [of "PBool True" scripted "''qwen-turbo''" "''Hi__SEPARATOR__How are you?''" "[''ignored'']"
              Map.empty "start [ok ''r1'', ok ''r2'']" sample]
  by simp



text \<open>
  C8 (amended). No failure of a single call leaves \<open>request\<close>: the only exception it raises
  is the terminal \<open>ConnectionError\<close>, after \<open>max_try_times\<close> failed rounds. When \<open>request\<close>
  returns results, every call that failed was followed by a further call. Each failed call
  is followed by one \<open>time.sleep(1)\<close> and two warnings (a round fails without a call only
  when \<open>prompt[0]\<close> cannot be read), and the sleep comes before the next call: the first
  call is issued at once, a call after a failed call one second after it, a call after an
  answered call with no delay, and \<open>request\<close> ends one second after a last call that failed.
  An exception of \<open>__init__\<close> is the \<open>ValueError\<close> of the missing API key, or comes out of
  \<open>Model.__init__\<close> or \<open>dashscope.get_tokenizer\<close>.
\<close>

theorem failures_stay_inside:
  assumes "request api self prompt kwargs mt w = (res, w')"
  shows "(\<forall>e. res = Inl e \<longrightarrow>
            e = ConnectionError ''Dashscope API error'' \<and> slept w' = slept w + max_try_times self) \<and>
         (\<forall>rs. res = Inr rs \<longrightarrow>
            slept w' < slept w + max_try_times self \<and>
            (\<forall>i < length (new_calls w w'). \<not> ok_call (new_calls w w' ! i) \<longrightarrow> Suc i < length (new_calls w w'))) \<and>
         length (filter (\<lambda>c. \<not> ok_call c) (new_calls w w')) \<le> slept w' - slept w \<and>
         (\<not> (truthy mt \<and> prompt = []) \<longrightarrow>
            slept w' = slept w + 1 * length (filter (\<lambda>c. \<not> ok_call c) (new_calls w w'))) \<and>
         (\<exists>errs. length errs = slept w' - slept w \<and>
                 logged w' = logged w @ concat (map retry_warnings errs)) \<and>
         (new_calls w w' \<noteq> [] \<longrightarrow>
            call_time (hd (new_calls w w')) = slept w \<and>
            slept w' = call_time (last (new_calls w w')) +
                       (if ok_call (last (new_calls w w')) then 0 else 1)) \<and>
         (\<forall>i. Suc i < length (new_calls w w') \<longrightarrow>
            call_time (new_calls w w' ! Suc i) =
              call_time (new_calls w w' ! i) + (if ok_call (new_calls w w' ! i) then 0 else 1)) \<and>
         (\<forall>e. fst (init super_init get_tokenizer a v) = Inl e \<longrightarrow>
            super_init a = Some e \<or>
            e = ValueError key_required \<and>
              (dashscope_api_key a = None \<or> dashscope_api_key a = Some []) \<or>
            get_tokenizer (tokenizer_name_or_path a) = Inl e)"
proof -
  define qs where "qs = turn_prompts (parts_of mt prompt)"
  define cs where "cs = new_calls w w'"
  from request_trace [OF assms] obtain fs fin errs where
    t: "cs = concat fs @ fin" "slept w' = slept w + length fs"
       "logged w' = logged w @ concat (map retry_warnings errs)" "length errs = length fs"
       "length fs \<le> max_try_times self"
       "\<forall>f \<in> set fs. failed_round (name self) kwargs qs f \<and> (f = [] \<longrightarrow> truthy mt \<and> prompt = [])"
       "case res of
          Inr rs \<Rightarrow> complete_round (name self) kwargs qs fin rs \<and> length fs < max_try_times self
        | Inl e \<Rightarrow> e = ConnectionError ''Dashscope API error'' \<and> length fs = max_try_times self \<and> fin = []"
    unfolding qs_def cs_def by blast
  have fin_ok: "filter (\<lambda>c. \<not> ok_call c) fin = []"
    using t(7) by (cases res) (auto simp: complete_round_def list_all_iff filter_empty_conv)
  have count: "length (filter (\<lambda>c. \<not> ok_call c) cs) = length (filter (\<lambda>f. f \<noteq> []) fs)"
    using failed_rounds_count [of fs "name self" kwargs qs] t(6) fin_ok by (simp add: t(1))
  have pc: "paced cs" "cs \<noteq> [] \<longrightarrow> call_time (hd cs) = slept w"
    using retry_loop_paced [OF assms [unfolded request_def]] by (simp_all add: cs_def)
  have 1: "\<forall>e. res = Inl e \<longrightarrow>
            e = ConnectionError ''Dashscope API error'' \<and> slept w' = slept w + max_try_times self"
    using t(2) t(7) by auto
  have 2: "\<forall>rs. res = Inr rs \<longrightarrow>
            slept w' < slept w + max_try_times self \<and>
            (\<forall>i < length cs. \<not> ok_call (cs ! i) \<longrightarrow> Suc i < length cs)"
  proof (intro allI impI conjI)
    fix rs assume r: "res = Inr rs"
    with t(2) t(7) show "slept w' < slept w + max_try_times self" by simp
    fix i assume i: "i < length cs" "\<not> ok_call (cs ! i)"
    then have "cs \<noteq> []" by auto
    with request_success_last_ok [of api self prompt kwargs mt w rs w'] assms r
    have "ok_call (last cs)" by (simp add: cs_def)
    show "Suc i < length cs"
    proof (rule ccontr)
      assume "\<not> Suc i < length cs"
      with i(1) have "i = length cs - 1" by simp
      with \<open>ok_call (last cs)\<close> \<open>cs \<noteq> []\<close> i(2) show False by (simp add: last_conv_nth)
    qed
  qed
  have 3: "length (filter (\<lambda>c. \<not> ok_call c) cs) \<le> slept w' - slept w"
    using count t(2) by simp
  have 4: "\<not> (truthy mt \<and> prompt = []) \<longrightarrow>
            slept w' = slept w + 1 * length (filter (\<lambda>c. \<not> ok_call c) cs)"
  proof
    assume "\<not> (truthy mt \<and> prompt = [])"
    with t(6) have "filter (\<lambda>f. f \<noteq> []) fs = fs" by (auto simp: filter_id_conv)
    with count t(2) show "slept w' = slept w + 1 * length (filter (\<lambda>c. \<not> ok_call c) cs)" by simp
  qed
  have 5: "\<exists>errs. length errs = slept w' - slept w \<and>
                 logged w' = logged w @ concat (map retry_warnings errs)"
    using t(2,3,4) by auto
  have 6: "cs \<noteq> [] \<longrightarrow>
            call_time (hd cs) = slept w \<and>
            slept w' = call_time (last cs) + (if ok_call (last cs) then 0 else 1)"
  proof
    assume ne: "cs \<noteq> []"
    have "\<not> (truthy mt \<and> prompt = [])"
    proof
      assume "truthy mt \<and> prompt = []"
      with retry_loop_without_prompt [of mt "max_try_times self" api "name self" kwargs w] assms
      have "cs = []" by (simp add: cs_def new_calls_def request_def)
      with ne show False by simp
    qed
    with 4 have "slept w' = slept w + length (filter (\<lambda>c. \<not> ok_call c) cs)" by simp
    moreover from pc(2) ne have "call_time (hd cs) = slept w" by simp
    ultimately show "call_time (hd cs) = slept w \<and>
            slept w' = call_time (last cs) + (if ok_call (last cs) then 0 else 1)"
      using paced_last [OF pc(1) ne] by simp
  qed
  have 7: "\<forall>i. Suc i < length cs \<longrightarrow>
            call_time (cs ! Suc i) = call_time (cs ! i) + (if ok_call (cs ! i) then 0 else 1)"
    using paced_nth [OF pc(1)] by blast
  have 8: "\<forall>e. fst (init super_init get_tokenizer a v) = Inl e \<longrightarrow>
            super_init a = Some e \<or>
            e = ValueError key_required \<and>
              (dashscope_api_key a = None \<or> dashscope_api_key a = Some []) \<or>
            get_tokenizer (tokenizer_name_or_path a) = Inl e"
    by (auto simp: init_def Let_def split: option.splits if_splits sum.splits)
  from 1 2 3 4 5 6 7 8 show ?thesis unfolding cs_def by blast
qed

theorem failures_stay_inside_witness:
  "fst (request scripted sample [''a''] Map.empty (PBool False) (start outage)) =
     Inl (ConnectionError ''Dashscope API error'') \<and>
   slept (snd (request scripted sample [''a''] Map.empty (PBool False) (start outage))) =
     slept (start outage) + max_try_times sample \<and>
   fst (request scripted sample [''a'', ''b''] Map.empty (PBool False) (start recovering)) =
     Inr [Reply ''r3'', Reply ''r4''] \<and>
   slept (snd (request scripted sample [''a'', ''b''] Map.empty (PBool False) (start recovering))) =
     slept (start recovering) +
     1 * length (filter (\<lambda>c. \<not> ok_call c)
           (new_calls (start recovering)
              (snd (request scripted sample [''a'', ''b''] Map.empty (PBool False) (start recovering))))) \<and>
   map call_time
     (new_calls (start recovering)
        (snd (request scripted sample [''a'', ''b''] Map.empty (PBool False) (start recovering)))) =
     [0, 0, 1, 1] \<and>
   call_time
     (new_calls (start recovering)
        (snd (request scripted sample [''a'', ''b''] Map.empty (PBool False) (start recovering))) ! Suc 1) =
   call_time
     (new_calls (start recovering)
        (snd (request scripted sample [''a'', ''b''] Map.empty (PBool False) (start recovering))) ! 1) +
   (if ok_call
         (new_calls (start recovering)
            (snd (request scripted sample [''a'', ''b''] Map.empty (PBool False) (start recovering))) ! 1)
    then 0 else 1) \<and>
   fst (init returns qwen_only (sample_args\<lparr> dashscope_api_key := None \<rparr>) (start outage)) =
     Inl (ValueError key_required)"
proof -
  let ?w' = "snd (request scripted sample [''a'', ''b''] Map.empty (PBool False) (start recovering))"
  have a: "fst (request scripted sample [''a''] Map.empty (PBool False) (start outage)) =
     Inl (ConnectionError ''Dashscope API error'')"
    by (simp add: run_defs outage_def eval_nat_numeral)
  have b: "fst (request scripted sample [''a'', ''b''] Map.empty (PBool False) (start recovering)) =
     Inr [Reply ''r3'', Reply ''r4'']"
    by (simp add: run_defs recovering_def eval_nat_numeral)
  have c: "map call_time (new_calls (start recovering) ?w') = [0, 0, 1, 1]"
    by (simp add: run_defs recovering_def new_calls_def eval_nat_numeral)
  then have len: "Suc 1 < length (new_calls (start recovering) ?w')"
    by (metis length_map list.size(3,4) One_nat_def Suc_less_eq zero_less_Suc add_Suc_right add_0_right)
  have d: "fst (init returns qwen_only (sample_args\<lparr> dashscope_api_key := None \<rparr>) (start outage)) =
     Inl (ValueError key_required)"
    by (simp add: init_def returns_def sample_args_def)
  note t1 = failures_stay_inside
        [where api = scripted and self = sample and prompt = "[''a'']" and kwargs = Map.empty
           and mt = "PBool False" and w = "start outage" and super_init = returns
           and get_tokenizer = qwen_only and a = "sample_args\<lparr> dashscope_api_key := None \<rparr>"
           and v = "start outage",
         OF prod.collapse [symmetric]]
  note t2 = failures_stay_inside
        [where api = scripted and self = sample and prompt = "[''a'', ''b'']" and kwargs = Map.empty
           and mt = "PBool False" and w = "start recovering" and super_init = returns
           and get_tokenizer = qwen_only and a = "sample_args\<lparr> dashscope_api_key := None \<rparr>"
           and v = "start outage",
         OF prod.collapse [symmetric]]
  from t2 len have e: "call_time (new_calls (start recovering) ?w' ! Suc 1) =
      call_time (new_calls (start recovering) ?w' ! 1) +
      (if ok_call (new_calls (start recovering) ?w' ! 1) then 0 else 1)"
    by blast
  from t1 a have f: "slept (snd (request scripted sample [''a''] Map.empty (PBool False) (start outage))) =
     slept (start outage) + max_try_times sample"
    by blast
  from t2 have g: "slept ?w' = slept (start recovering) +
     1 * length (filter (\<lambda>c. \<not> ok_call c) (new_calls (start recovering) ?w'))"
    by simp
  from a b c d e f g show ?thesis by blast
qed

text \<open>
  C8 as stated fails for the constructor: with the API key set, a tokenizer name that
  \<open>dashscope.get_tokenizer\<close> does not know makes \<open>__init__\<close> raise that function's exception.
\<close>

theorem unknown_tokenizer_leaves_init:
  "fst (init returns qwen_only (sample_args\<lparr> tokenizer_name_or_path := ''gpt-4'' \<rparr>) (start [])) =
     Inl (UnsupportedModel ''Not support model: gpt-4, currently only support qwen models.'')"
  by (simp add: init_def returns_def qwen_only_def sample_args_def)

text \<open>
  C2. Every round starts with no message and no recorded reply and runs over all the
  parts; a failed round is followed by the next one after the back-off. Seen from outside:
  the first call, and every call that follows a failed call, sends the first turn prompt as
  its only message, and the replies returned are those of the last round alone.
\<close>

theorem round_restarts_from_scratch:
  assumes "request api self prompt kwargs mt w = (res, w')"
  shows "messages fresh = [] \<and> results fresh = [] \<and>
         attempt api nm prompt kwargs mt v =
           (if truthy mt \<and> prompt = [] then (Inl (IndexError, fresh), v)
            else query_loop api nm kwargs (parts_of mt prompt) fresh v) \<and>
         (\<forall>e l v1. attempt api nm prompt kwargs mt v = (Inl (e, l), v1) \<longrightarrow>
            retry_loop (Suc n) api nm prompt kwargs mt v =
              retry_loop n api nm prompt kwargs mt (back_off (error_msg l) v1)) \<and>
         (new_calls w w' \<noteq> [] \<longrightarrow>
            call_messages (hd (new_calls w w')) = [user_message (hd (turn_prompts (parts_of mt prompt)))]) \<and>
         (\<forall>i. Suc i < length (new_calls w w') \<and> \<not> ok_call (new_calls w w' ! i) \<longrightarrow>
            call_messages (new_calls w w' ! Suc i) = [user_message (hd (turn_prompts (parts_of mt prompt)))]) \<and>
         (\<forall>rs. res = Inr rs \<longrightarrow>
            length rs = length (turn_prompts (parts_of mt prompt)) \<and>
            map Some rs =
              map reply_of (drop (length (new_calls w w') - length (turn_prompts (parts_of mt prompt)))
                              (new_calls w w')))"
proof -
  define qs where "qs = turn_prompts (parts_of mt prompt)"
  define cs where "cs = new_calls w w'"
  from request_trace [OF assms] obtain fs fin where
    t: "cs = concat fs @ fin"
       "\<forall>f \<in> set fs. failed_round (name self) kwargs qs f"
       "case res of
          Inr rs \<Rightarrow> complete_round (name self) kwargs qs fin rs
        | Inl e \<Rightarrow> fin = []"
    unfolding qs_def cs_def by (cases res) auto
  have fin: "fin = [] \<or> round_trace (name self) kwargs [] qs fin"
    using t(3) by (cases res) (auto simp: complete_round_def)
  from rounds_restart [OF t(2) fin] have
    r: "restarts [user_message (hd qs)] cs"
       "cs \<noteq> [] \<longrightarrow> call_messages (hd cs) = [user_message (hd qs)]"
    by (simp_all add: t(1))
  have 1: "messages fresh = [] \<and> results fresh = []" by (simp add: fresh_def)
  have 2: "attempt api nm prompt kwargs mt v =
           (if truthy mt \<and> prompt = [] then (Inl (IndexError, fresh), v)
            else query_loop api nm kwargs (parts_of mt prompt) fresh v)"
    by (auto simp: attempt_def parts_of_def split: list.splits)
  have 3: "\<forall>e l v1. attempt api nm prompt kwargs mt v = (Inl (e, l), v1) \<longrightarrow>
            retry_loop (Suc n) api nm prompt kwargs mt v =
              retry_loop n api nm prompt kwargs mt (back_off (error_msg l) v1)"
    by simp
  have 4: "\<forall>i. Suc i < length cs \<and> \<not> ok_call (cs ! i) \<longrightarrow>
            call_messages (cs ! Suc i) = [user_message (hd qs)]"
    using restarts_nth [OF r(1)] by blast
  have 5: "\<forall>rs. res = Inr rs \<longrightarrow>
            length rs = length qs \<and> map Some rs = map reply_of (drop (length cs - length qs) cs)"
  proof (intro allI impI)
    fix rs assume "res = Inr rs"
    with t(3) have c: "complete_round (name self) kwargs qs fin rs" by simp
    then have l: "length fin = length qs" "map Some rs = map reply_of fin"
      by (simp_all add: complete_round_def)
    from l(2) have "length rs = length fin" by (metis length_map)
    moreover have "drop (length cs - length qs) cs = fin"
      using l(1) by (simp add: t(1))
    ultimately show "length rs = length qs \<and> map Some rs = map reply_of (drop (length cs - length qs) cs)"
      using l by simp
  qed
  from 1 2 3 r(2) 4 5 show ?thesis unfolding qs_def cs_def by blast
qed

theorem round_restarts_from_scratch_witness:
  "map call_messages
     (new_calls (start recovering)
        (snd (request scripted sample [''a'', ''b''] Map.empty (PBool False) (start recovering)))) =
     [[user_message ''a''],
      [user_message ''a'', assistant_message (Reply ''r1''), user_message ''b''],
      [user_message ''a''],
      [user_message ''a'', assistant_message (Reply ''r3''), user_message ''b'']] \<and>
   call_messages
     (new_calls (start recovering)
        (snd (request scripted sample [''a'', ''b''] Map.empty (PBool False) (start recovering))) ! Suc 1) =
     [user_message (hd (turn_prompts (parts_of (PBool False) [''a'', ''b''])))]"
proof -
  let ?w' = "snd (request scripted sample [''a'', ''b''] Map.empty (PBool False) (start recovering))"
  have cs: "map call_messages (new_calls (start recovering) ?w') =
     [[user_message ''a''],
      [user_message ''a'', assistant_message (Reply ''r1''), user_message ''b''],
      [user_message ''a''],
      [user_message ''a'', assistant_message (Reply ''r3''), user_message ''b'']]"
    by (simp add: run_defs recovering_def new_calls_def eval_nat_numeral)
  then have len: "Suc 1 < length (new_calls (start recovering) ?w')"
    by (metis length_map list.size(3,4) One_nat_def Suc_less_eq zero_less_Suc add_Suc_right add_0_right)
  have bad: "\<not> ok_call (new_calls (start recovering) ?w' ! 1)"
    by (simp add: run_defs recovering_def new_calls_def ok_call_def reply_of_def eval_nat_numeral)
  from round_restarts_from_scratch
         [where api = scripted and self = sample and prompt = "[''a'', ''b'']" and kwargs = Map.empty
            and mt = "PBool False" and w = "start recovering" and nm = "name sample"
            and v = "start recovering" and n = 0,
          OF prod.collapse [symmetric]] len bad
  have "call_messages (new_calls (start recovering) ?w' ! Suc 1) =
     [user_message (hd (turn_prompts (parts_of (PBool False) [''a'', ''b''])))]"
    by blast
  with cs show ?thesis by blast
qed

text \<open>
  C4 (amended). When \<open>generation\<close> returns, its answers are the replies of the last round,
  one for each non-empty turn prompt and in their order: the call that sent the i-th
  non-empty prompt last got the i-th answer as its reply. With a true \<open>multi_turn\<close> the
  result is a list holding the one tuple of these answers; otherwise it is the list of the
  answers, which has one answer for each input prompt when no input prompt is empty.
\<close>

theorem generation_answers_aligned:
  assumes "fst (generation api self inputs w) = Inr out"
  shows "\<exists>answers.
           out = (if truthy (multi_turn self) then [Turns answers] else map Text answers) \<and>
           length answers = length (turn_prompts (parts_of (multi_turn self) inputs)) \<and>
           length (turn_prompts (parts_of (multi_turn self) inputs))
             \<le> length (new_calls w (snd (generation api self inputs w))) \<and>
           (\<forall>i < length (turn_prompts (parts_of (multi_turn self) inputs)).
              last (call_messages
                     (drop (length (calls (snd (generation api self inputs w))) -
                            length (turn_prompts (parts_of (multi_turn self) inputs)))
                        (calls (snd (generation api self inputs w))) ! i)) =
                user_message (turn_prompts (parts_of (multi_turn self) inputs) ! i) \<and>
              reply_of
                (drop (length (calls (snd (generation api self inputs w))) -
                       length (turn_prompts (parts_of (multi_turn self) inputs)))
                   (calls (snd (generation api self inputs w))) ! i) =
                Some (Reply (answers ! i))) \<and>
           (\<not> truthy (multi_turn self) \<and> (\<forall>p \<in> set inputs. p \<noteq> []) \<longrightarrow>
              turn_prompts (parts_of (multi_turn self) inputs) = inputs \<and>
              length out = length inputs)"
proof -
  define qs where "qs = turn_prompts (parts_of (multi_turn self) inputs)"
  obtain res w' where r: "request api self inputs (generation_kwargs self) (multi_turn self) w = (res, w')"
    by (cases "request api self inputs (generation_kwargs self) (multi_turn self) w")
  with assms obtain rs where rs: "res = Inr rs"
    by (cases res) (auto simp: generation_def)
  define answers where "answers = map reply_content rs"
  have g: "generation api self inputs w =
           (Inr (if truthy (multi_turn self) then [Turns answers] else map Text answers), w')"
    using r rs by (simp add: generation_def answers_def)
  with assms have out: "out = (if truthy (multi_turn self) then [Turns answers] else map Text answers)"
    by simp
  from retry_loop_last_round [OF r [unfolded request_def rs]] obtain pre fin where
    t: "calls w' = calls w @ pre @ fin" "complete_round (name self) (generation_kwargs self) qs fin rs"
    unfolding qs_def by blast
  from t(2) have fin: "length fin = length qs" "map Some rs = map reply_of fin"
    "round_trace (name self) (generation_kwargs self) [] qs fin"
    by (simp_all add: complete_round_def)
  have len: "length rs = length qs" using fin(1,2) by (metis length_map)
  have d: "drop (length (calls w') - length qs) (calls w') = fin"
    using fin(1) by (simp add: t(1))
  have nc: "length qs \<le> length (new_calls w w')"
    using fin(1) by (simp add: new_calls_def t(1))
  have al: "last (call_messages (fin ! i)) = user_message (qs ! i) \<and> reply_of (fin ! i) = Some (Reply (answers ! i))"
    if "i < length qs" for i
  proof -
    have "last (call_messages (fin ! i)) = user_message (qs ! i)"
      using round_trace_last_message [OF fin(3), of i] that fin(1) by simp
    moreover have "map Some rs ! i = map reply_of fin ! i" using fin(2) by simp
    then have "reply_of (fin ! i) = Some (rs ! i)" using that len fin(1) by simp
    moreover have "rs ! i = Reply (answers ! i)" using that len by (simp add: answers_def)
    ultimately show ?thesis by simp
  qed
  have ne: "qs = inputs \<and> length out = length inputs"
    if "\<not> truthy (multi_turn self) \<and> (\<forall>p \<in> set inputs. p \<noteq> [])"
  proof -
    have "qs = inputs" using that by (simp add: qs_def parts_of_def turn_prompts_def filter_id_conv)
    with out that len show ?thesis by (simp add: answers_def)
  qed
  have sg: "snd (generation api self inputs w) = w'" using g by simp
  show ?thesis
    unfolding sg qs_def [symmetric]
    using out len nc al ne d by (intro exI [of _ answers]) (simp add: answers_def)
qed

theorem generation_answers_aligned_witness:
  "fst (generation scripted sample_configured [''a'', ''b''] (start recovering)) =
     Inr [Text ''r3'', Text ''r4''] \<and>
   length [Text ''r3'', Text ''r4''] = length [''a'', ''b''] \<and>
   fst (generation scripted sample_dialogue [''Hi__SEPARATOR__How are you?'']
          (start [None, ok ''reply1'', ok ''reply2''])) =
     Inr [Turns [''reply1'', ''reply2'']]"
proof -
  have a: "fst (generation scripted sample_configured [''a'', ''b''] (start recovering)) =
     Inr [Text ''r3'', Text ''r4'']"
    by (simp add: gen_defs recovering_def eval_nat_numeral)
  have b: "fst (generation scripted sample_dialogue [''Hi__SEPARATOR__How are you?'']
          (start [None, ok ''reply1'', ok ''reply2''])) = Inr [Turns [''reply1'', ''reply2'']]"
    by (simp add: gen_defs eval_nat_numeral)
  from generation_answers_aligned [OF a]
  have "length [Text ''r3'', Text ''r4''] = length [''a'', ''b'']"
    by (simp add: sample_configured_fields)
  with a b generation_answers_aligned [OF b] show ?thesis by blast
qed

text \<open>
  C4 as stated fails on a batch with an empty prompt: the loop skips it, so two prompts get
  one answer, and the answer to the second prompt comes first.
\<close>

theorem empty_prompt_shifts_answers:
  "fst (generation scripted sample_configured ['''', ''a''] (start [ok ''r''])) = Inr [Text ''r'']"
  by (simp add: gen_defs eval_nat_numeral)

text \<open>
  C6. In the options that \<open>set_generation_args\<close> resolves, \<open>seed\<close> is the seed of the
  model arguments when the resolved \<open>temperature\<close> equals 0 (Python's \<open>==\<close>), and is absent
  when \<open>temperature\<close> is absent or differs from 0. Every call that \<open>generation\<close> issues on
  the configured object is given exactly these options.
\<close>

theorem seed_follows_temperature:
  "(\<forall>t. fst (set_generation_args self extra) ''temperature'' = Some t \<and> eq_zero t \<longrightarrow>
        fst (set_generation_args self extra) ''seed'' = Some (seed (args self))) \<and>
   (fst (set_generation_args self extra) ''temperature'' = None \<or>
    (\<exists>t. fst (set_generation_args self extra) ''temperature'' = Some t \<and> \<not> eq_zero t) \<longrightarrow>
        fst (set_generation_args self extra) ''seed'' = None) \<and>
   (\<forall>c \<in> set (new_calls w (snd (generation api (snd (set_generation_args self extra)) inputs w))).
        call_kwargs c = fst (set_generation_args self extra))"
proof -
  let ?kw = "fst (set_generation_args self extra)"
  have seed: "?kw ''seed'' =
     (if eq_zero (get ?kw ''temperature'' (PInt 1)) then Some (seed (args self)) else None)"
    using temperature_resolved [of self extra]
    by (simp add: kwargs_listed [of self extra "''seed''"] get_def)
  have 1: "\<forall>t. ?kw ''temperature'' = Some t \<and> eq_zero t \<longrightarrow> ?kw ''seed'' = Some (seed (args self))"
    by (simp add: seed get_def)
  have 2: "?kw ''temperature'' = None \<or> (\<exists>t. ?kw ''temperature'' = Some t \<and> \<not> eq_zero t) \<longrightarrow>
             ?kw ''seed'' = None"
    by (auto simp: seed get_def)
  have 3: "\<forall>c \<in> set (new_calls w (snd (generation api (snd (set_generation_args self extra)) inputs w))).
             call_kwargs c = ?kw"
    using request_calls_kwargs
            [where api = api and self = "snd (set_generation_args self extra)" and prompt = inputs
               and kw = "generation_kwargs (snd (set_generation_args self extra))"
               and mt = "multi_turn (snd (set_generation_args self extra))" and w = w,
             OF prod.collapse [symmetric]]
    by (simp add: generation_world set_generation_args_stored)
  from 1 2 3 show ?thesis by blast
qed

theorem seed_follows_temperature_witness:
  "fst (set_generation_args sample [''temperature'' \<mapsto> PInt 0]) ''temperature'' = Some (PInt 0) \<and>
   fst (set_generation_args sample [''temperature'' \<mapsto> PInt 0]) ''seed'' = Some (PInt 2023) \<and>
   fst (set_generation_args sample [''temperature'' \<mapsto> PFloat (7 / 10)]) ''temperature'' = Some (PFloat (7 / 10)) \<and>
   fst (set_generation_args sample [''temperature'' \<mapsto> PFloat (7 / 10)]) ''seed'' = None \<and>
   fst (set_generation_args sample Map.empty) ''temperature'' = None \<and>
   fst (set_generation_args sample Map.empty) ''seed'' = None"
proof -
  have a: "fst (set_generation_args sample [''temperature'' \<mapsto> PInt 0]) ''temperature'' = Some (PInt 0)"
    by (simp add: kwargs_listed resolved_def getattr_def get_def generation_keys_def sample_def sample_args_def)
  have b: "fst (set_generation_args sample [''temperature'' \<mapsto> PFloat (7 / 10)]) ''temperature'' = Some (PFloat (7 / 10))"
    by (simp add: kwargs_listed resolved_def getattr_def get_def generation_keys_def sample_def sample_args_def)
  have c: "fst (set_generation_args sample Map.empty) ''temperature'' = None"
    by (simp add: kwargs_listed resolved_def getattr_def get_def generation_keys_def sample_def sample_args_def)
  have "fst (set_generation_args sample [''temperature'' \<mapsto> PInt 0]) ''seed'' = Some (PInt 2023)"
    using a seed_follows_temperature
            [where self = sample and extra = "[''temperature'' \<mapsto> PInt 0]" and w = "start []"
               and api = scripted and inputs = "[]"]
    by (simp add: sample_def sample_args_def)
  moreover have "fst (set_generation_args sample [''temperature'' \<mapsto> PFloat (7 / 10)]) ''seed'' = None"
    using b seed_follows_temperature
            [where self = sample and extra = "[''temperature'' \<mapsto> PFloat (7 / 10)]" and w = "start []"
               and api = scripted and inputs = "[]"]
    by simp
  moreover have "fst (set_generation_args sample Map.empty) ''seed'' = None"
    using c seed_follows_temperature
            [where self = sample and extra = Map.empty and w = "start []"
               and api = scripted and inputs = "[]"]
    by simp
  ultimately show ?thesis using a b c by blast
qed

text \<open>
  C7. In a round, the call of turn \<open>k + 1\<close> sends \<open>2 * k + 1\<close> messages, at most twice the
  number of turns issued; at the end of the round, completed or failed, the conversation
  holds at most two messages for each call issued. The messages alternate between user and
  assistant, a user message first, and every call sent a prefix of the final conversation.
  Every assistant message follows a user message and holds the reply to the call that sent
  exactly the messages before it.
\<close>

theorem conversation_invariant:
  assumes "attempt api nm prompt kwargs mt w = (res, w')"
  shows "(\<forall>k < length (new_calls w w').
            length (call_messages (new_calls w w' ! k)) = 2 * k + 1 \<and>
            length (call_messages (new_calls w w' ! k)) \<le> 2 * (k + 1) \<and>
            alternating (call_messages (new_calls w w' ! k)) \<and>
            call_messages (new_calls w w' ! k) = take (2 * k + 1) (messages (final_locals res))) \<and>
         length (messages (final_locals res)) \<le> 2 * length (new_calls w w') \<and>
         alternating (messages (final_locals res)) \<and>
         (\<forall>i < length (messages (final_locals res)).
            role (messages (final_locals res) ! i) = Assistant \<longrightarrow>
              0 < i \<and> role (messages (final_locals res) ! (i - 1)) = User \<and>
              (\<exists>k < length (new_calls w w').
                 i = 2 * k + 1 \<and>
                 call_messages (new_calls w w' ! k) = take i (messages (final_locals res)) \<and>
                 reply_of (new_calls w w' ! k) = Some (Reply (content (messages (final_locals res) ! i)))))"
proof -
  define qs where "qs = turn_prompts (parts_of mt prompt)"
  define ms where "ms = messages (final_locals res)"
  define cs where "cs = new_calls w w'"
  from attempt_trace [OF assms] obtain cs0 where
    c0: "calls w' = calls w @ cs0"
        "case res of
           Inr l' \<Rightarrow> complete_round nm kwargs qs cs0 (results l') \<and> messages l' = conversation_after [] cs0
         | Inl (e, l') \<Rightarrow> failed_round nm kwargs qs cs0 \<and> messages l' = conversation_after [] cs0"
    unfolding qs_def by (cases res) auto
  have "cs0 = cs" using c0(1) by (simp add: cs_def new_calls_def)
  with c0(2) have rt: "round_trace nm kwargs [] qs cs" and msc: "ms = conversation_after [] cs"
    by (cases res; auto simp: complete_round_def failed_round_def ms_def final_locals_def)+
  have alt: "alternating ms"
    using round_trace_alternating [OF rt alternating_empty] by (simp add: msc)
  have len: "length ms \<le> 2 * length cs"
    using round_trace_conversation_length [OF rt] by (simp add: msc)
  have sent: "length (call_messages (cs ! k)) = 2 * k + 1 \<and>
              length (call_messages (cs ! k)) \<le> 2 * (k + 1) \<and>
              alternating (call_messages (cs ! k)) \<and>
              call_messages (cs ! k) = take (2 * k + 1) ms" if "k < length cs" for k
  proof -
    from round_trace_sent [OF rt that] have
      s: "2 * k + 1 \<le> length ms" "take (2 * k + 1) ms = call_messages (cs ! k)"
      by (simp_all add: msc)
    then have "length (call_messages (cs ! k)) = 2 * k + 1"
      by (metis length_take min.absorb2)
    moreover have "alternating (call_messages (cs ! k))"
      using alternating_take [OF alt, of "2 * k + 1"] s(2) by simp
    ultimately show ?thesis using s(2) by simp
  qed
  have ans: "0 < i \<and> role (ms ! (i - 1)) = User \<and>
             (\<exists>k < length cs. i = 2 * k + 1 \<and> call_messages (cs ! k) = take i ms \<and>
                  reply_of (cs ! k) = Some (Reply (content (ms ! i))))"
    if i: "i < length ms" "role (ms ! i) = Assistant" for i
  proof -
    from alt i have "odd i" by (auto simp: alternating_def split: if_splits)
    then obtain k where k: "i = 2 * k + 1" by (auto elim: oddE)
    with i(1) have "length [] + 2 * k + 1 < length (conversation_after [] cs)" by (simp add: msc)
    from round_trace_answer [OF rt this] obtain m where
      m: "k < length cs" "reply_of (cs ! k) = Some m" "ms ! i = assistant_message m"
      by (auto simp: msc k)
    have "role (ms ! (i - 1)) = User"
      using alt i(1) k by (simp add: alternating_def)
    moreover have "call_messages (cs ! k) = take i ms"
      using sent [OF m(1)] k by simp
    moreover have "reply_of (cs ! k) = Some (Reply (content (ms ! i)))"
      using m(2,3) by simp
    ultimately show ?thesis using k m(1) by auto
  qed
  from sent len alt ans show ?thesis unfolding ms_def cs_def by blast
qed

theorem conversation_invariant_witness:
  "messages (final_locals (fst (attempt scripted ''qwen-turbo'' [''Hi__SEPARATOR__How are you?'']
       Map.empty (PBool True) (start [ok ''reply1'', ok ''reply2''])))) =
     [user_message ''Hi'', assistant_message (Reply ''reply1''),
      user_message ''How are you?'', assistant_message (Reply ''reply2'')] \<and>
   length (messages (final_locals (fst (attempt scripted ''qwen-turbo'' [''Hi__SEPARATOR__How are you?'']
       Map.empty (PBool True) (start [ok ''reply1'', ok ''reply2''])))))
     \<le> 2 * length (new_calls (start [ok ''reply1'', ok ''reply2''])
           (snd (attempt scripted ''qwen-turbo'' [''Hi__SEPARATOR__How are you?'']
              Map.empty (PBool True) (start [ok ''reply1'', ok ''reply2''])))) \<and>
   alternating (messages (final_locals (fst (attempt scripted ''qwen-turbo'' [''Hi__SEPARATOR__How are you?'']
       Map.empty (PBool True) (start [ok ''reply1'', ok ''reply2''])))))"
proof -
  have a: "messages (final_locals (fst (attempt scripted ''qwen-turbo'' [''Hi__SEPARATOR__How are you?'']
       Map.empty (PBool True) (start [ok ''reply1'', ok ''reply2''])))) =
     [user_message ''Hi'', assistant_message (Reply ''reply1''),
      user_message ''How are you?'', assistant_message (Reply ''reply2'')]"
    by (simp add: gen_defs final_locals_def)
  show ?thesis
    using a conversation_invariant
            [where api = scripted and nm = "''qwen-turbo''" and prompt = "[''Hi__SEPARATOR__How are you?'']"
               and kwargs = Map.empty and mt = "PBool True" and w = "start [ok ''reply1'', ok ''reply2'']",
             OF prod.collapse [symmetric]]
    by blast
qed




text \<open>
  C1 does not hold of the program. With \<open>multi_turn\<close> false, the prompts of a batch are
  sent as the turns of one conversation: the call for the second prompt carries the first
  prompt and its reply. When that call fails, the whole batch starts again, and the first
  prompt is asked a second time.
\<close>

theorem batch_shares_one_conversation:
  "map call_messages
     (calls (snd (request scripted sample [''a'', ''b''] Map.empty (PBool False)
                    (start [ok ''r1'', ok ''r2''])))) =
     [[user_message ''a''],
      [user_message ''a'', assistant_message (Reply ''r1''), user_message ''b'']] \<and>
   map call_messages
     (calls (snd (request scripted sample [''a'', ''b''] Map.empty (PBool False) (start recovering)))) =
     [[user_message ''a''],
      [user_message ''a'', assistant_message (Reply ''r1''), user_message ''b''],
      [user_message ''a''],
      [user_message ''a'', assistant_message (Reply ''r3''), user_message ''b'']]"
  by (simp add: run_defs recovering_def eval_nat_numeral)

end
